theory Spec2Isabelle
  imports Main
begin

section \<open>Cells, grids and the B3/S23 rule\<close>

text \<open>
  A grid is a rectangular numpy array of \<open>int8\<close> cells; it is modelled as a list of rows.
  Cell values are read as integers: the programs only ever store 0 and 1, and a sum of
  eight such cells never leaves the range of \<open>int8\<close>.
\<close>

type_synonym grid = "int list list"

definition shape :: "grid \<Rightarrow> nat \<Rightarrow> nat \<Rightarrow> bool" where
  "shape g r c = (length g = r \<and> list_all (\<lambda>row. length row = c) g)"

definition binary :: "grid \<Rightarrow> bool" where
  "binary g = list_all (list_all (\<lambda>v. v = 0 \<or> v = 1)) g"

definition ncols :: "grid \<Rightarrow> nat" where
  "ncols g = (case g of [] \<Rightarrow> 0 | row # _ \<Rightarrow> length row)"

definition cell_at :: "grid \<Rightarrow> nat \<times> nat \<Rightarrow> int" where
  "cell_at g p = g ! fst p ! snd p"

text \<open>\<open>update_cell\<close> of both programs (life_mpi.py and life_mpi_2d.py have the same text).\<close>

definition update_cell :: "int \<Rightarrow> int \<Rightarrow> int" where
  "update_cell current neighbors =
     (if current = 1 then (if neighbors = 2 \<or> neighbors = 3 then 1 else 0)
      else (if neighbors = 3 then 1 else 0))"

text \<open>
  The two nested loops \<open>for di in [-1, 0, 1]: for dj in [-1, 0, 1]\<close> with the
  \<open>continue\<close> at \<open>di == 0 and dj == 0\<close>, in the order the loops run.
\<close>

definition stencil_offsets :: "(int \<times> int) list" where
  "stencil_offsets =
     concat (map (\<lambda>di. concat (map (\<lambda>dj. if di = 0 \<and> dj = 0 then [] else [(di, dj)])
                                     [-1, 0, 1])) [-1, 0, 1])"

section \<open>The stencil kernels\<close>

text \<open>
  The cells the 1-D kernel reads for the centre \<open>(i, j)\<close>: \<open>ni = i + di\<close> and
  \<open>nj = (j + dj) % nx\<close>. Python's \<open>%\<close> with a positive modulus is the \<open>mod\<close> of HOL.
\<close>

definition reads_1d :: "nat \<Rightarrow> nat \<Rightarrow> nat \<Rightarrow> (nat \<times> nat) list" where
  "reads_1d nx i j =
     map (\<lambda>(di, dj). (nat (int i + di), nat ((int j + dj) mod int nx))) stencil_offsets"

definition compute_next_generation :: "grid \<Rightarrow> nat \<Rightarrow> grid" where
  "compute_next_generation local_grid nx =
     map (\<lambda>i. map (\<lambda>j. update_cell (local_grid ! i ! j)
                           (sum_list (map (cell_at local_grid) (reads_1d nx i j))))
                 [0..<nx])
         [1..<length local_grid - 1]"

text \<open>The cells the 2-D kernel reads for the centre \<open>(i, j)\<close>: \<open>(i + di, j + dj)\<close>.\<close>

definition reads_2d :: "nat \<Rightarrow> nat \<Rightarrow> (nat \<times> nat) list" where
  "reads_2d i j = map (\<lambda>(di, dj). (nat (int i + di), nat (int j + dj))) stencil_offsets"

definition compute_next_generation_2d :: "grid \<Rightarrow> grid" where
  "compute_next_generation_2d local_grid =
     map (\<lambda>i. map (\<lambda>j. update_cell (local_grid ! i ! j)
                           (sum_list (map (cell_at local_grid) (reads_2d i j))))
                 [1..<ncols local_grid - 1])
         [1..<length local_grid - 1]"

section \<open>The decomposition plan\<close>

text \<open>
  The remainder rule of both drivers: \<open>rows_per_rank = ny // size\<close>,
  \<open>remainder = ny % size\<close> and \<open>row_count = rows_per_rank + 1 if r < remainder else
  rows_per_rank\<close>. The 2-D driver applies the same expression to the rows (\<open>ny\<close>,
  \<open>dims[0]\<close>) and to the columns (\<open>nx\<close>, \<open>dims[1]\<close>). The number of processes of an
  MPI run is at least 1. The 2-D driver computes on Python integers. The 1-D driver holds
  \<open>ny\<close> and \<open>nx\<close> as \<open>int32\<close> values (\<open>ny, nx = dims[0], dims[1]\<close> of an \<open>int32\<close> array);
  \<open>ny // size\<close>, \<open>ny % size\<close> and \<open>rows_per_rank + 1\<close> of such values stay within \<open>int32\<close>,
  so the row counts of both drivers are the same natural numbers.
\<close>

definition row_count :: "nat \<Rightarrow> nat \<Rightarrow> nat \<Rightarrow> nat" where
  "row_count n parts r = (if r < n mod parts then n div parts + 1 else n div parts)"

text \<open>
  \<open>row_start\<close> and \<open>col_start\<close> of the 2-D driver:
  \<open>sum([row_count(r) for r in range(proc_row)])\<close>.
\<close>

definition start_of :: "nat \<Rightarrow> nat \<Rightarrow> nat \<Rightarrow> nat" where
  "start_of n parts p = sum_list (map (row_count n parts) [0..<p])"

text \<open>
  Arithmetic on \<open>int32\<close> values wraps around: the result of \<open>+\<close> and \<open>*\<close> is the exact result
  brought back into \<open>[-2 ^ 31, 2 ^ 31)\<close> modulo \<open>2 ^ 32\<close>.
\<close>

definition wrap32 :: "int \<Rightarrow> int" where
  "wrap32 i = (i + 2 ^ 31) mod 2 ^ 32 - 2 ^ 31"

text \<open>
  The loop of the 1-D driver (and of \<open>gather_grid\<close>) that fills \<open>send_counts\<close> and
  \<open>displacements\<close> while it advances \<open>offset\<close>. The product \<open>row_count * nx\<close> is a product of
  two \<open>int32\<close> values, and \<open>offset\<close> is an \<open>int32\<close> value from the first addition on.
\<close>

definition distribution :: "nat \<Rightarrow> nat \<Rightarrow> nat \<Rightarrow> int list \<times> int list" where
  "distribution ny nx nprocs =
     (case fold (\<lambda>r (send_counts, displacements, offset).
                   (send_counts @ [wrap32 (int (row_count ny nprocs r) * int nx)],
                    displacements @ [offset],
                    wrap32 (offset + wrap32 (int (row_count ny nprocs r) * int nx))))
                [0..<nprocs] ([], [], 0)
      of (send_counts, displacements, offset) \<Rightarrow> (send_counts, displacements))"

text \<open>The rows (or columns) a strip owns, and the cells a patch owns.\<close>

definition owned :: "nat \<Rightarrow> nat \<Rightarrow> nat \<Rightarrow> nat set" where
  "owned n parts p = {start_of n parts p ..< start_of n parts p + row_count n parts p}"

definition patch_region :: "nat \<Rightarrow> nat \<Rightarrow> nat \<Rightarrow> nat \<Rightarrow> nat \<times> nat \<Rightarrow> (nat \<times> nat) set" where
  "patch_region ny nx Py Px c = owned ny Py (fst c) \<times> owned nx Px (snd c)"

section \<open>The sequential reference\<close>

text \<open>
  The global rule on the unsplit grid, written from the specification: the next state of
  cell \<open>(y, x)\<close> is \<open>update_cell\<close> of its value and of the sum of the eight cells at the
  offsets \<open>(\<plusminus>1, \<plusminus>1)\<close>, \<open>(\<plusminus>1, 0)\<close>, \<open>(0, \<plusminus>1)\<close>, each coordinate taken modulo
  \<open>(ny, nx)\<close>. The distributed programs are compared with it.
\<close>

definition torus_reads :: "nat \<Rightarrow> nat \<Rightarrow> nat \<Rightarrow> nat \<Rightarrow> (nat \<times> nat) list" where
  "torus_reads ny nx y x =
     map (\<lambda>(dy, dx). (nat ((int y + dy) mod int ny), nat ((int x + dx) mod int nx)))
         stencil_offsets"

definition reference_step :: "nat \<Rightarrow> nat \<Rightarrow> grid \<Rightarrow> grid" where
  "reference_step ny nx G =
     map (\<lambda>y. map (\<lambda>x. update_cell (G ! y ! x)
                           (sum_list (map (cell_at G) (torus_reads ny nx y x))))
                 [0..<nx])
         [0..<ny]"

section \<open>Array operations\<close>

text \<open>\<open>np.zeros((r, c))\<close>, \<open>a.reshape(r, c)\<close> of a flat array and \<open>a.flatten()\<close>.\<close>

definition zeros :: "nat \<Rightarrow> nat \<Rightarrow> grid" where
  "zeros r c = replicate r (replicate c 0)"

definition reshape :: "nat \<Rightarrow> nat \<Rightarrow> int list \<Rightarrow> grid" where
  "reshape r c flat = map (\<lambda>i. take c (drop (i * c) flat)) [0..<r]"

definition flatten :: "grid \<Rightarrow> int list" where
  "flatten g = concat g"

text \<open>
  What stops a run of the 1-D program: an exception of numpy (\<open>OverflowError\<close> for a
  Python integer that does not fit the \<open>int32\<close> array it is stored in, \<open>ValueError\<close> for
  a negative array size and for a reshape to a different number of cells), an MPI call
  outside what MPI allows, or a receive that never completes.
\<close>

datatype failure = OverflowError | ValueError | MPIError | Deadlock

text \<open>
  \<open>np.zeros(n, dtype=np.int8)\<close> for an integer \<open>n\<close> and \<open>a.reshape(r, c)\<close> of a flat array
  as the 1-D program calls them, with the \<open>ValueError\<close> they raise.
\<close>

definition np_zeros :: "int \<Rightarrow> failure + int list" where
  "np_zeros n = (if n < 0 then Inl ValueError else Inr (replicate (nat n) 0))"

definition np_reshape :: "nat \<Rightarrow> nat \<Rightarrow> int list \<Rightarrow> failure + grid" where
  "np_reshape r c flat = (if length flat = r * c then Inr (reshape r c flat) else Inl ValueError)"

text \<open>The results of all ranks, or the failure of the first rank that has one.\<close>

primrec collect :: "(failure + 'a) list \<Rightarrow> failure + 'a list" where
  "collect [] = Inr []"
| "collect (x # xs) =
     (case x of
        Inl e \<Rightarrow> Inl e
      | Inr v \<Rightarrow> (case collect xs of Inl e \<Rightarrow> Inl e | Inr vs \<Rightarrow> Inr (v # vs)))"

text \<open>
  The slice assignment \<open>g[start : start + len(block), :] = block\<close> and the slice
  \<open>g[1 : local_rows + 1, :]\<close> that takes the owned rows out of a patch.
\<close>

definition set_rows :: "grid \<Rightarrow> nat \<Rightarrow> grid \<Rightarrow> grid" where
  "set_rows g start block = take start g @ block @ drop (start + length block) g"

definition interior_rows :: "grid \<Rightarrow> grid" where
  "interior_rows local_grid = take (length local_grid - 2) (drop 1 local_grid)"

section \<open>Messages\<close>

text \<open>
  A posted send is a message with its source, destination, tag and data. A receive posted
  by \<open>rank\<close> for \<open>(source, tag)\<close> completes with the first message sent by \<open>source\<close> to
  \<open>rank\<close> under that tag; when there is none the receive never completes, which is the
  value \<open>None\<close>.
\<close>

record message =
  src :: nat
  dest :: nat
  tag :: nat
  payload :: "int list"

definition receive :: "message list \<Rightarrow> nat \<Rightarrow> nat \<Rightarrow> nat \<Rightarrow> int list option" where
  "receive msgs rank source t =
     map_option payload (find (\<lambda>m. src m = source \<and> dest m = rank \<and> tag m = t) msgs)"

section \<open>The 1-D program (life_mpi.py)\<close>

definition top_neighbor :: "nat \<Rightarrow> nat \<Rightarrow> nat" where
  "top_neighbor rank nprocs = nat ((int rank - 1) mod int nprocs)"

definition bottom_neighbor :: "nat \<Rightarrow> nat \<Rightarrow> nat" where
  "bottom_neighbor rank nprocs = (rank + 1) mod nprocs"

text \<open>The two \<open>Isend\<close> calls of \<open>exchange_halo\<close> on one rank.\<close>

definition halo_sends :: "grid \<Rightarrow> nat \<Rightarrow> nat \<Rightarrow> message list" where
  "halo_sends local_grid rank nprocs =
     (let local_rows_total = length local_grid;
          local_rows_real = local_rows_total - 2;
          top_real_row = local_grid ! 1;
          bottom_real_row = local_grid ! local_rows_real
      in [\<lparr>src = rank, dest = bottom_neighbor rank nprocs, tag = 0, payload = bottom_real_row\<rparr>,
          \<lparr>src = rank, dest = top_neighbor rank nprocs, tag = 1, payload = top_real_row\<rparr>])"

text \<open>
  The two \<open>Irecv\<close> calls, \<open>Waitall\<close> and the two halo assignments of \<open>exchange_halo\<close> on
  one rank, given the messages all ranks have posted.
\<close>

definition exchange_halo :: "message list \<Rightarrow> grid \<Rightarrow> nat \<Rightarrow> nat \<Rightarrow> grid option" where
  "exchange_halo msgs local_grid rank nprocs =
     (let local_rows_total = length local_grid
      in case receive msgs rank (top_neighbor rank nprocs) 0 of
           None \<Rightarrow> None
         | Some recv_buf_top \<Rightarrow>
             (case receive msgs rank (bottom_neighbor rank nprocs) 1 of
                None \<Rightarrow> None
              | Some recv_buf_bottom \<Rightarrow>
                  Some (local_grid[0 := recv_buf_top, local_rows_total - 1 := recv_buf_bottom])))"

text \<open>All ranks call \<open>exchange_halo\<close> together; \<open>locals ! rank\<close> is the patch of \<open>rank\<close>.\<close>

definition exchange_halo_all :: "grid list \<Rightarrow> nat \<Rightarrow> grid list option" where
  "exchange_halo_all locals nprocs =
     (let msgs = concat (map (\<lambda>rank. halo_sends (locals ! rank) rank nprocs) [0..<nprocs])
      in those (map (\<lambda>rank. exchange_halo msgs (locals ! rank) rank nprocs) [0..<nprocs]))"

text \<open>
  \<open>Scatterv\<close> as rank \<open>rank\<close> sees it: it receives \<open>send_counts[rank]\<close> elements of the
  root's flat buffer from \<open>displacements[rank]\<close> on into its receive buffer. \<open>Gatherv\<close> on
  the root: the data of rank \<open>r\<close> is stored at \<open>displacements[r]\<close> of the receive buffer.
  The counts and displacements are the integers the driver computed. A call with a
  negative count or displacement, with a segment that leaves the root's buffer, or with
  more data than the receiver has room for is outside what MPI allows and is a failure.
\<close>

definition scatterv ::
  "int list \<Rightarrow> int list \<Rightarrow> int list \<Rightarrow> int list \<Rightarrow> nat \<Rightarrow> failure + int list" where
  "scatterv sendbuf send_counts displacements recvbuf rank =
     (let count = send_counts ! rank;
          displ = displacements ! rank
      in if count < 0 \<or> displ < 0 \<or> int (length sendbuf) < displ + count
            \<or> int (length recvbuf) < count
         then Inl MPIError
         else Inr (take (nat count) (drop (nat displ) sendbuf) @ drop (nat count) recvbuf))"

definition write_at :: "int list \<Rightarrow> nat \<Rightarrow> int list \<Rightarrow> int list" where
  "write_at buf off data = take off buf @ data @ drop (off + length data) buf"

definition gatherv ::
  "int list list \<Rightarrow> int list \<Rightarrow> int list \<Rightarrow> int list \<Rightarrow> failure + int list" where
  "gatherv sendbufs recvbuf recv_counts displacements =
     (if list_all (\<lambda>r. 0 \<le> recv_counts ! r \<and> 0 \<le> displacements ! r
                        \<and> displacements ! r + recv_counts ! r \<le> int (length recvbuf)
                        \<and> int (length (sendbufs ! r)) \<le> recv_counts ! r)
                  [0..<length sendbufs]
      then Inr (fold (\<lambda>r buf. write_at buf (nat (displacements ! r)) (sendbufs ! r))
                     [0..<length sendbufs] recvbuf)
      else Inl MPIError)"

text \<open>
  The start of \<open>main\<close> on every rank: the distribution, the receive buffer
  \<open>np.zeros(local_rows * nx)\<close> whose size is a product of two \<open>int32\<close> values,
  \<open>Scatterv\<close>, the reshape and the halo rows.
\<close>

definition scatter_1d :: "nat \<Rightarrow> nat \<Rightarrow> nat \<Rightarrow> grid \<Rightarrow> failure + grid list" where
  "scatter_1d nprocs ny nx global_grid =
     (case distribution ny nx nprocs of (send_counts, displacements) \<Rightarrow>
        collect (map (\<lambda>rank.
               let local_rows = row_count ny nprocs rank
               in case np_zeros (wrap32 (int local_rows * int nx)) of
                    Inl e \<Rightarrow> Inl e
                  | Inr recvbuf \<Rightarrow>
                      (case scatterv (flatten global_grid) send_counts displacements recvbuf rank of
                         Inl e \<Rightarrow> Inl e
                       | Inr local_data \<Rightarrow>
                           (case np_reshape local_rows nx local_data of
                              Inl e \<Rightarrow> Inl e
                            | Inr local_grid_2d \<Rightarrow>
                                Inr (set_rows (zeros (local_rows + 2) nx) 1 local_grid_2d))))
            [0..<nprocs]))"

text \<open>
  \<open>gather_grid\<close> as the root sees it: the receive buffer \<open>np.zeros(ny * nx)\<close>, whose size
  is a product of two \<open>int32\<close> values, \<open>Gatherv\<close> and the reshape to \<open>(ny, nx)\<close>.
\<close>

definition gather_grid :: "grid list \<Rightarrow> nat \<Rightarrow> nat \<Rightarrow> nat \<Rightarrow> failure + grid" where
  "gather_grid locals nprocs ny nx =
     (case distribution ny nx nprocs of (recv_counts, displacements) \<Rightarrow>
        case np_zeros (wrap32 (int ny * int nx)) of
          Inl e \<Rightarrow> Inl e
        | Inr global_flat \<Rightarrow>
            (case gatherv (map (\<lambda>local_grid. flatten (interior_rows local_grid)) locals)
                          global_flat recv_counts displacements of
               Inl e \<Rightarrow> Inl e
             | Inr gathered \<Rightarrow> np_reshape ny nx gathered))"

text \<open>
  One pass of the main loop on all ranks: the kernel, the assignment of the interior, the
  halo exchange unless this is the last step, and the snapshot at the save interval.
  The state is the list of patches and the snapshots saved so far, each with its step.
\<close>

definition loop_body ::
  "nat \<Rightarrow> nat \<Rightarrow> nat \<Rightarrow> nat \<Rightarrow> nat \<Rightarrow> nat \<Rightarrow> grid list \<times> (nat \<times> grid) list
     \<Rightarrow> failure + grid list \<times> (nat \<times> grid) list" where
  "loop_body nprocs ny nx steps save_interval step st =
     (case st of (locals, snapshots) \<Rightarrow>
        let updated = map (\<lambda>local_grid. set_rows local_grid 1 (compute_next_generation local_grid nx))
                          locals
        in case (if int step < int steps - 1 then exchange_halo_all updated nprocs else Some updated) of
             None \<Rightarrow> Inl Deadlock
           | Some exchanged \<Rightarrow>
               if 0 < save_interval \<and> (step + 1) mod save_interval = 0
               then (case gather_grid exchanged nprocs ny nx of
                       Inl e \<Rightarrow> Inl e
                     | Inr frame_grid \<Rightarrow> Inr (exchanged, snapshots @ [(step + 1, frame_grid)]))
               else Inr (exchanged, snapshots))"

fun main_loop ::
  "nat \<Rightarrow> nat \<Rightarrow> nat \<Rightarrow> nat \<Rightarrow> nat \<Rightarrow> nat list \<Rightarrow> grid list \<times> (nat \<times> grid) list
     \<Rightarrow> failure + grid list \<times> (nat \<times> grid) list" where
  "main_loop nprocs ny nx steps save_interval [] st = Inr st"
| "main_loop nprocs ny nx steps save_interval (step # rest) st =
     (case loop_body nprocs ny nx steps save_interval step st of
        Inl e \<Rightarrow> Inl e
      | Inr st' \<Rightarrow> main_loop nprocs ny nx steps save_interval rest st')"

text \<open>
  \<open>main\<close> from the broadcast of the dimensions on, given the grid \<open>initialize_grid\<close> made
  on rank 0 (so \<open>ny\<close> and \<open>nx\<close> are not negative) and the number of processes
  \<open>comm.Get_size()\<close>, which is at least 1: \<open>dims = np.array([args.ny, args.nx], dtype=np.int32)\<close>, where numpy refuses a
  Python integer outside \<open>int32\<close>, the scatter, the initial halo exchange, the snapshot
  of step 0, the loop and the final gather. The result is the final grid on rank 0 and
  the snapshots it saved (step 0 when the save interval is positive, the steps at the
  interval, and the final state under the step count), or what stopped the run.
\<close>

definition main_1d ::
  "nat \<Rightarrow> nat \<Rightarrow> nat \<Rightarrow> nat \<Rightarrow> nat \<Rightarrow> grid \<Rightarrow> failure + grid \<times> (nat \<times> grid) list" where
  "main_1d nprocs ny nx steps save_interval global_grid =
     (if 2 ^ 31 \<le> int ny \<or> 2 ^ 31 \<le> int nx then Inl OverflowError
      else case scatter_1d nprocs ny nx global_grid of
        Inl e \<Rightarrow> Inl e
      | Inr patches \<Rightarrow>
          (case exchange_halo_all patches nprocs of
             None \<Rightarrow> Inl Deadlock
           | Some local_grids \<Rightarrow>
               (case (if 0 < save_interval
                      then (case gather_grid local_grids nprocs ny nx of
                              Inl e \<Rightarrow> Inl e
                            | Inr initial_grid \<Rightarrow> Inr [(0, initial_grid)])
                      else Inr []) of
                  Inl e \<Rightarrow> Inl e
                | Inr initial \<Rightarrow>
                    (case main_loop nprocs ny nx steps save_interval [0..<steps]
                            (local_grids, initial) of
                       Inl e \<Rightarrow> Inl e
                     | Inr (locals, snapshots) \<Rightarrow>
                         (case gather_grid locals nprocs ny nx of
                            Inl e \<Rightarrow> Inl e
                          | Inr final_grid \<Rightarrow>
                              Inr (final_grid, snapshots @ [(steps, final_grid)]))))))"

section \<open>The patches of a global grid\<close>

text \<open>
  The rows of the global grid \<open>G\<close> that the plan gives to rank \<open>r\<close>, and the relation
  between a global grid and the patches of a 1-D run that hold it: every patch has its
  planned number of rows plus two halo rows, and its owned rows are the strip of \<open>G\<close>.
\<close>

definition strip_of :: "nat \<Rightarrow> nat \<Rightarrow> grid \<Rightarrow> nat \<Rightarrow> grid" where
  "strip_of ny nprocs G r = take (row_count ny nprocs r) (drop (start_of ny nprocs r) G)"

text \<open>The strips of \<open>G\<close>, each between two halo rows of zeros.\<close>

definition padded_strips :: "nat \<Rightarrow> nat \<Rightarrow> nat \<Rightarrow> grid \<Rightarrow> grid list" where
  "padded_strips nprocs ny nx G =
     map (\<lambda>r. replicate nx 0 # strip_of ny nprocs G r @ [replicate nx 0]) [0..<nprocs]"

definition owns_1d :: "nat \<Rightarrow> nat \<Rightarrow> grid \<Rightarrow> grid list \<Rightarrow> bool" where
  "owns_1d ny nprocs G locals =
     (length locals = nprocs \<and>
      (\<forall>r<nprocs. length (locals ! r) = row_count ny nprocs r + 2 \<and>
                   interior_rows (locals ! r) = strip_of ny nprocs G r))"

text \<open>
  A patch of rank \<open>r\<close> is in step with \<open>G\<close> when each of its rows, the two halo rows
  included, is the row of \<open>G\<close> at that place on the torus: row \<open>k\<close> of the patch is row
  \<open>(row_start + k - 1) mod ny\<close> of \<open>G\<close>.
\<close>

definition padded_1d :: "nat \<Rightarrow> nat \<Rightarrow> grid \<Rightarrow> grid \<Rightarrow> nat \<Rightarrow> bool" where
  "padded_1d ny nprocs G local_grid r =
     (length local_grid = row_count ny nprocs r + 2 \<and>
      (\<forall>k\<le>row_count ny nprocs r + 1.
         local_grid ! k = G ! nat ((int (start_of ny nprocs r) + int k - 1) mod int ny)))"

definition synced_1d :: "nat \<Rightarrow> nat \<Rightarrow> grid \<Rightarrow> grid list \<Rightarrow> bool" where
  "synced_1d ny nprocs G locals =
     (length locals = nprocs \<and> (\<forall>r<nprocs. padded_1d ny nprocs G (locals ! r) r))"

text \<open>The steps at which the main loop saves a snapshot.\<close>

definition snapshot_steps :: "nat \<Rightarrow> nat \<Rightarrow> nat \<Rightarrow> nat list" where
  "snapshot_steps save_interval a steps =
     filter (\<lambda>k. 0 < save_interval \<and> k mod save_interval = 0) [a + 1..<steps + 1]"

section \<open>The 2-D program (life_mpi_2d.py)\<close>

text \<open>
  Rectangular slices: \<open>g[i0 : i0 + r, j0 : j0 + c]\<close> read as a block, and the slice
  assignment \<open>g[i0 : i0 + len(blk), j0 : j0 + width(blk)] = blk\<close>. A row, a column and a
  single cell are blocks of one row, of one column, and of one row and one column.
\<close>

definition block :: "grid \<Rightarrow> nat \<Rightarrow> nat \<Rightarrow> nat \<Rightarrow> nat \<Rightarrow> grid" where
  "block g i0 r j0 c = map (\<lambda>row. take c (drop j0 row)) (take r (drop i0 g))"

definition set_block :: "grid \<Rightarrow> nat \<Rightarrow> nat \<Rightarrow> grid \<Rightarrow> grid" where
  "set_block g i0 j0 blk =
     take i0 g
     @ map (\<lambda>(row, vs). take j0 row @ vs @ drop (j0 + length vs) row)
           (zip (take (length blk) (drop i0 g)) blk)
     @ drop (i0 + length blk) g"

definition column_block :: "int list \<Rightarrow> grid" where
  "column_block vs = map (\<lambda>v. [v]) vs"


text \<open>
  The Cartesian topology of MPI with both dimensions periodic. These operations belong to
  the MPI library, not to the repository; they are written from the MPI standard and from
  section 4.3 of the specification: ranks are numbered row by row, \<open>Get_cart_rank\<close> maps
  coordinates to the rank and \<open>Get_coords\<close> back, and \<open>Shift(d, 1)\<close> gives the ranks one
  step back and one step forward along dimension \<open>d\<close>, wrapping around. The run does not
  reorder ranks: rank 0 of the world communicator has the coordinates \<open>(0, 0)\<close>.
\<close>

definition Get_cart_rank :: "nat \<times> nat \<Rightarrow> nat \<times> nat \<Rightarrow> nat" where
  "Get_cart_rank dims coords = fst coords * snd dims + snd coords"

definition Get_coords :: "nat \<times> nat \<Rightarrow> nat \<Rightarrow> nat \<times> nat" where
  "Get_coords dims rank = (rank div snd dims, rank mod snd dims)"

definition Shift :: "nat \<times> nat \<Rightarrow> nat \<Rightarrow> nat \<Rightarrow> nat \<times> nat" where
  "Shift dims rank direction =
     (case Get_coords dims rank of (py, px) \<Rightarrow>
        if direction = 0
        then (Get_cart_rank dims (nat ((int py - 1) mod int (fst dims)), px),
              Get_cart_rank dims ((py + 1) mod fst dims, px))
        else (Get_cart_rank dims (py, nat ((int px - 1) mod int (snd dims))),
              Get_cart_rank dims (py, (px + 1) mod snd dims)))"

text \<open>The neighbours of \<open>exchange_halo_2d\<close>, in the order north, south, west, east, nw, ne, sw, se.\<close>

record neighbours =
  north :: nat
  south :: nat
  west :: nat
  east :: nat
  nw :: nat
  ne :: nat
  sw :: nat
  se :: nat

definition neighbours_of :: "nat \<times> nat \<Rightarrow> nat \<Rightarrow> neighbours" where
  "neighbours_of dims rank =
     (case Get_coords dims rank of (c0, c1) \<Rightarrow>
        \<lparr>north = fst (Shift dims rank 0),
         south = snd (Shift dims rank 0),
         west = fst (Shift dims rank 1),
         east = snd (Shift dims rank 1),
         nw = Get_cart_rank dims (nat ((int c0 - 1) mod int (fst dims)), nat ((int c1 - 1) mod int (snd dims))),
         ne = Get_cart_rank dims (nat ((int c0 - 1) mod int (fst dims)), (c1 + 1) mod snd dims),
         sw = Get_cart_rank dims ((c0 + 1) mod fst dims, nat ((int c1 - 1) mod int (snd dims))),
         se = Get_cart_rank dims ((c0 + 1) mod fst dims, (c1 + 1) mod snd dims)\<rparr>)"

text \<open>
  The send buffers of \<open>exchange_halo_2d\<close>: the edge rows and columns and the corner cells
  of the interior, with \<open>local_rows = shape[0] - 2\<close> and \<open>local_cols = shape[1] - 2\<close>.
\<close>

definition local_rows_of :: "grid \<Rightarrow> nat" where
  "local_rows_of local_grid = length local_grid - 2"

definition local_cols_of :: "grid \<Rightarrow> nat" where
  "local_cols_of local_grid = ncols local_grid - 2"

text \<open>The interior \<open>local_grid[1 : local_rows + 1, 1 : local_cols + 1]\<close> of a patch.\<close>

definition interior :: "grid \<Rightarrow> grid" where
  "interior local_grid =
     block local_grid 1 (local_rows_of local_grid) 1 (local_cols_of local_grid)"

definition north_row :: "grid \<Rightarrow> int list" where
  "north_row local_grid = take (local_cols_of local_grid) (drop 1 (local_grid ! 1))"

definition south_row :: "grid \<Rightarrow> int list" where
  "south_row local_grid =
     take (local_cols_of local_grid) (drop 1 (local_grid ! local_rows_of local_grid))"

definition west_col :: "grid \<Rightarrow> int list" where
  "west_col local_grid = map (\<lambda>i. local_grid ! i ! 1) [1..<local_rows_of local_grid + 1]"

definition east_col :: "grid \<Rightarrow> int list" where
  "east_col local_grid =
     map (\<lambda>i. local_grid ! i ! local_cols_of local_grid) [1..<local_rows_of local_grid + 1]"

definition nw_cell :: "grid \<Rightarrow> int list" where
  "nw_cell local_grid = [local_grid ! 1 ! 1]"

definition ne_cell :: "grid \<Rightarrow> int list" where
  "ne_cell local_grid = [local_grid ! 1 ! local_cols_of local_grid]"

definition sw_cell :: "grid \<Rightarrow> int list" where
  "sw_cell local_grid = [local_grid ! local_rows_of local_grid ! 1]"

definition se_cell :: "grid \<Rightarrow> int list" where
  "se_cell local_grid = [local_grid ! local_rows_of local_grid ! local_cols_of local_grid]"

text \<open>The eight \<open>Isend\<close> calls of \<open>exchange_halo_2d\<close> on one rank, in the order they are posted.\<close>

definition halo_sends_2d :: "grid \<Rightarrow> nat \<Rightarrow> nat \<times> nat \<Rightarrow> message list" where
  "halo_sends_2d local_grid rank dims =
     (let nb = neighbours_of dims rank
      in [\<lparr>src = rank, dest = south nb, tag = 0, payload = south_row local_grid\<rparr>,
          \<lparr>src = rank, dest = north nb, tag = 1, payload = north_row local_grid\<rparr>,
          \<lparr>src = rank, dest = east nb, tag = 2, payload = east_col local_grid\<rparr>,
          \<lparr>src = rank, dest = west nb, tag = 3, payload = west_col local_grid\<rparr>,
          \<lparr>src = rank, dest = se nb, tag = 4, payload = se_cell local_grid\<rparr>,
          \<lparr>src = rank, dest = sw nb, tag = 5, payload = sw_cell local_grid\<rparr>,
          \<lparr>src = rank, dest = ne nb, tag = 6, payload = ne_cell local_grid\<rparr>,
          \<lparr>src = rank, dest = nw nb, tag = 7, payload = nw_cell local_grid\<rparr>])"

text \<open>
  The eight \<open>Irecv\<close> calls, \<open>Waitall\<close> and the eight halo assignments of
  \<open>exchange_halo_2d\<close> on one rank, given the messages all ranks have posted. The
  assignments are \<open>assign_halos\<close>, in the order of the source: the north and south rows,
  the west and east columns, then the four corners.
\<close>

definition receive_all :: "message list \<Rightarrow> nat \<Rightarrow> (nat \<times> nat) list \<Rightarrow> int list list option" where
  "receive_all msgs rank posted = those (map (\<lambda>(source, t). receive msgs rank source t) posted)"

definition assign_halos ::
  "grid \<Rightarrow> int list \<Rightarrow> int list \<Rightarrow> int list \<Rightarrow> int list \<Rightarrow> int \<Rightarrow> int \<Rightarrow> int \<Rightarrow> int \<Rightarrow> grid" where
  "assign_halos local_grid recv_north recv_south recv_west recv_east v_nw v_ne v_sw v_se =
     (let local_rows = local_rows_of local_grid;
          local_cols = local_cols_of local_grid;
          g1 = set_block local_grid 0 1 [recv_north];
          g2 = set_block g1 (local_rows + 1) 1 [recv_south];
          g3 = set_block g2 1 0 (column_block recv_west);
          g4 = set_block g3 1 (local_cols + 1) (column_block recv_east);
          g5 = set_block g4 0 0 [[v_nw]];
          g6 = set_block g5 0 (local_cols + 1) [[v_ne]];
          g7 = set_block g6 (local_rows + 1) 0 [[v_sw]]
      in set_block g7 (local_rows + 1) (local_cols + 1) [[v_se]])"

definition exchange_halo_2d :: "message list \<Rightarrow> grid \<Rightarrow> nat \<Rightarrow> nat \<times> nat \<Rightarrow> grid option" where
  "exchange_halo_2d msgs local_grid rank dims =
     (let nb = neighbours_of dims rank
      in case receive_all msgs rank
                [(north nb, 0), (south nb, 1), (west nb, 2), (east nb, 3),
                 (nw nb, 4), (ne nb, 5), (sw nb, 6), (se nb, 7)] of
           Some [recv_north, recv_south, recv_west, recv_east, recv_nw, recv_ne, recv_sw, recv_se] \<Rightarrow>
             Some (assign_halos local_grid recv_north recv_south recv_west recv_east
                     (recv_nw ! 0) (recv_ne ! 0) (recv_sw ! 0) (recv_se ! 0))
         | _ \<Rightarrow> None)"

definition exchange_halo_2d_all :: "grid list \<Rightarrow> nat \<times> nat \<Rightarrow> grid list option" where
  "exchange_halo_2d_all locals dims =
     (let ranks = [0..<fst dims * snd dims];
          msgs = concat (map (\<lambda>rank. halo_sends_2d (locals ! rank) rank dims) ranks)
      in those (map (\<lambda>rank. exchange_halo_2d msgs (locals ! rank) rank dims) ranks))"

text \<open>
  The distribution in \<open>main\<close>: rank 0 cuts the patch of \<open>(proc_row, proc_col)\<close> out of the
  global grid and sends it to that rank, which puts it into the interior of a zero grid
  with a halo on all four sides. The patches are listed in the order of the loops, which
  is the order of the ranks.
\<close>

definition scatter_2d :: "nat \<times> nat \<Rightarrow> nat \<Rightarrow> nat \<Rightarrow> grid \<Rightarrow> grid list" where
  "scatter_2d dims ny nx global_grid =
     concat (map (\<lambda>proc_row.
               map (\<lambda>proc_col.
                      let nrows = row_count ny (fst dims) proc_row;
                          ncols' = row_count nx (snd dims) proc_col;
                          row_start = start_of ny (fst dims) proc_row;
                          col_start = start_of nx (snd dims) proc_col;
                          patch = block global_grid row_start nrows col_start ncols'
                      in set_block (zeros (nrows + 2) (ncols' + 2)) 1 1 patch)
                   [0..<snd dims])
             [0..<fst dims])"

text \<open>
  \<open>gather_grid_2d\<close>: every rank hands its interior to rank 0, which writes the patch of
  \<open>(proc_row, proc_col)\<close> into a zero grid at the offsets of the plan.
\<close>

definition gather_grid_2d :: "grid list \<Rightarrow> nat \<times> nat \<Rightarrow> nat \<Rightarrow> nat \<Rightarrow> grid" where
  "gather_grid_2d locals dims ny nx =
     fold (\<lambda>(proc_row, proc_col) global_grid.
             let target_rank = Get_cart_rank dims (proc_row, proc_col);
                 patch = interior (locals ! target_rank);
                 row_start = start_of ny (fst dims) proc_row;
                 col_start = start_of nx (snd dims) proc_col
             in set_block global_grid row_start col_start patch)
          (List.product [0..<fst dims] [0..<snd dims])
          (zeros ny nx)"

text \<open>One pass of the main loop of the 2-D program on all ranks, the loop and \<open>main\<close>.\<close>

definition loop_body_2d ::
  "nat \<times> nat \<Rightarrow> nat \<Rightarrow> nat \<Rightarrow> nat \<Rightarrow> nat \<Rightarrow> nat \<Rightarrow> grid list \<times> (nat \<times> grid) list
     \<Rightarrow> (grid list \<times> (nat \<times> grid) list) option" where
  "loop_body_2d dims ny nx steps save_interval step st =
     (case st of (locals, snapshots) \<Rightarrow>
        let updated = map (\<lambda>local_grid. set_block local_grid 1 1 (compute_next_generation_2d local_grid))
                          locals
        in case (if int step < int steps - 1 then exchange_halo_2d_all updated dims else Some updated) of
             None \<Rightarrow> None
           | Some exchanged \<Rightarrow>
               Some (exchanged,
                     if 0 < save_interval \<and> (step + 1) mod save_interval = 0
                     then snapshots @ [(step + 1, gather_grid_2d exchanged dims ny nx)]
                     else snapshots))"

fun main_loop_2d ::
  "nat \<times> nat \<Rightarrow> nat \<Rightarrow> nat \<Rightarrow> nat \<Rightarrow> nat \<Rightarrow> nat list \<Rightarrow> grid list \<times> (nat \<times> grid) list
     \<Rightarrow> (grid list \<times> (nat \<times> grid) list) option" where
  "main_loop_2d dims ny nx steps save_interval [] st = Some st"
| "main_loop_2d dims ny nx steps save_interval (step # rest) st =
     (case loop_body_2d dims ny nx steps save_interval step st of
        None \<Rightarrow> None
      | Some st' \<Rightarrow> main_loop_2d dims ny nx steps save_interval rest st')"

definition main_2d ::
  "nat \<times> nat \<Rightarrow> nat \<Rightarrow> nat \<Rightarrow> nat \<Rightarrow> nat \<Rightarrow> grid \<Rightarrow> (grid \<times> (nat \<times> grid) list) option" where
  "main_2d dims ny nx steps save_interval global_grid =
     (case exchange_halo_2d_all (scatter_2d dims ny nx global_grid) dims of
        None \<Rightarrow> None
      | Some local_grids \<Rightarrow>
          let initial = (if 0 < save_interval then [(0, gather_grid_2d local_grids dims ny nx)] else [])
          in case main_loop_2d dims ny nx steps save_interval [0..<steps] (local_grids, initial) of
               None \<Rightarrow> None
             | Some (locals, snapshots) \<Rightarrow>
                 let final_grid = gather_grid_2d locals dims ny nx
                 in Some (final_grid, snapshots @ [(steps, final_grid)]))"

section \<open>The patches of a global grid in the 2-D layout\<close>

text \<open>
  The patch of the rank at the coordinates \<open>(py, px)\<close>. The patches of a 2-D run have the
  planned shape when each is its planned rows and columns plus a halo on all four
  sides; they hold the global grid \<open>G\<close> when in addition every interior cell is the cell
  of \<open>G\<close> at the planned offset; a patch is in step with \<open>G\<close> when each of its cells,
  the halo included, is the cell of \<open>G\<close> at that place on the torus.
\<close>

definition patch_of :: "grid list \<Rightarrow> nat \<times> nat \<Rightarrow> nat \<Rightarrow> nat \<Rightarrow> grid" where
  "patch_of locals dims py px = locals ! Get_cart_rank dims (py, px)"

definition shaped_2d :: "nat \<Rightarrow> nat \<Rightarrow> nat \<times> nat \<Rightarrow> grid list \<Rightarrow> bool" where
  "shaped_2d ny nx dims locals =
     (length locals = fst dims * snd dims \<and>
      (\<forall>py<fst dims. \<forall>px<snd dims.
         shape (patch_of locals dims py px)
               (row_count ny (fst dims) py + 2) (row_count nx (snd dims) px + 2)))"

definition owns_2d :: "nat \<Rightarrow> nat \<Rightarrow> nat \<times> nat \<Rightarrow> grid \<Rightarrow> grid list \<Rightarrow> bool" where
  "owns_2d ny nx dims G locals =
     (shaped_2d ny nx dims locals \<and>
      (\<forall>py<fst dims. \<forall>px<snd dims.
         \<forall>i<row_count ny (fst dims) py. \<forall>j<row_count nx (snd dims) px.
           patch_of locals dims py px ! (i + 1) ! (j + 1)
           = G ! (start_of ny (fst dims) py + i) ! (start_of nx (snd dims) px + j)))"

definition padded_2d ::
  "nat \<Rightarrow> nat \<Rightarrow> nat \<times> nat \<Rightarrow> grid \<Rightarrow> grid \<Rightarrow> nat \<Rightarrow> nat \<Rightarrow> bool" where
  "padded_2d ny nx dims G local_grid py px =
     (\<forall>a\<le>row_count ny (fst dims) py + 1. \<forall>b\<le>row_count nx (snd dims) px + 1.
        local_grid ! a ! b
        = G ! nat ((int (start_of ny (fst dims) py) + int a - 1) mod int ny)
            ! nat ((int (start_of nx (snd dims) px) + int b - 1) mod int nx))"

definition synced_2d :: "nat \<Rightarrow> nat \<Rightarrow> nat \<times> nat \<Rightarrow> grid \<Rightarrow> grid list \<Rightarrow> bool" where
  "synced_2d ny nx dims G locals =
     (shaped_2d ny nx dims locals \<and>
      (\<forall>py<fst dims. \<forall>px<snd dims. padded_2d ny nx dims G (patch_of locals dims py px) py px))"

text \<open>
  Where a cell of the padded patch of \<open>(py, px)\<close> comes from: the coordinate of the
  owning process along one axis, and the index of the cell in that process's patch.
  \<open>k\<close> is the row (or column) index in the padded patch, \<open>p\<close> the coordinate of the
  process, \<open>n\<close> the extent of the grid and \<open>parts\<close> the number of processes along the axis.
\<close>

definition source_proc :: "nat \<Rightarrow> nat \<Rightarrow> nat \<Rightarrow> nat \<Rightarrow> nat" where
  "source_proc n parts p k =
     (if k = 0 then top_neighbor p parts
      else if k = row_count n parts p + 1 then bottom_neighbor p parts else p)"

definition source_index :: "nat \<Rightarrow> nat \<Rightarrow> nat \<Rightarrow> nat \<Rightarrow> nat" where
  "source_index n parts p k =
     (if k = 0 then row_count n parts (top_neighbor p parts)
      else if k = row_count n parts p + 1 then 1 else k)"

text \<open>
  The patch of \<open>(py, px)\<close> after a halo exchange, in terms of the patches before it: the
  halo assignments with the send buffers of the eight neighbours.
\<close>

definition exchanged_patch :: "grid list \<Rightarrow> nat \<times> nat \<Rightarrow> nat \<Rightarrow> nat \<Rightarrow> grid" where
  "exchanged_patch locals dims py px =
     (let up = top_neighbor py (fst dims); down = bottom_neighbor py (fst dims);
          left = top_neighbor px (snd dims); right = bottom_neighbor px (snd dims)
      in assign_halos (patch_of locals dims py px)
           (south_row (patch_of locals dims up px))
           (north_row (patch_of locals dims down px))
           (east_col (patch_of locals dims py left))
           (west_col (patch_of locals dims py right))
           (se_cell (patch_of locals dims up left) ! 0)
           (sw_cell (patch_of locals dims up right) ! 0)
           (ne_cell (patch_of locals dims down left) ! 0)
           (nw_cell (patch_of locals dims down right) ! 0))"

section \<open>Translation on the torus\<close>

text \<open>
  The grid \<open>G\<close> translated by \<open>(dy, dx)\<close> modulo \<open>(ny, nx)\<close>: the cell of \<open>G\<close> at \<open>(y, x)\<close>
  is found at \<open>((y + dy) mod ny, (x + dx) mod nx)\<close>.
\<close>

definition translate :: "nat \<Rightarrow> nat \<Rightarrow> int \<Rightarrow> int \<Rightarrow> grid \<Rightarrow> grid" where
  "translate ny nx dy dx G =
     map (\<lambda>y. map (\<lambda>x. G ! nat ((int y - dy) mod int ny) ! nat ((int x - dx) mod int nx))
                 [0..<nx])
         [0..<ny]"

section \<open>Still life and oscillator inputs\<close>

text \<open>
  Grids given by a set of live rows and a set of live columns: a cell is live when its
  row and its column are. The 2 x 2 block with its upper left cell at \<open>(y0, x0)\<close> and the
  horizontal blinker with its left cell at \<open>(y0, x0)\<close> are such grids, and so is the
  vertical blinker around the same centre, on the torus.
\<close>

definition pattern_grid :: "nat \<Rightarrow> nat \<Rightarrow> (nat \<Rightarrow> bool) \<Rightarrow> (nat \<Rightarrow> bool) \<Rightarrow> grid" where
  "pattern_grid ny nx R C =
     map (\<lambda>y. map (\<lambda>x. if R y \<and> C x then 1 else 0) [0..<nx]) [0..<ny]"

definition block_grid :: "nat \<Rightarrow> nat \<Rightarrow> nat \<Rightarrow> nat \<Rightarrow> grid" where
  "block_grid ny nx y0 x0 =
     pattern_grid ny nx (\<lambda>y. y = y0 \<or> y = y0 + 1) (\<lambda>x. x = x0 \<or> x = x0 + 1)"

definition blinker_grid :: "nat \<Rightarrow> nat \<Rightarrow> nat \<Rightarrow> nat \<Rightarrow> grid" where
  "blinker_grid ny nx y0 x0 =
     pattern_grid ny nx (\<lambda>y. y = y0) (\<lambda>x. x = x0 \<or> x = x0 + 1 \<or> x = x0 + 2)"

definition near :: "nat \<Rightarrow> nat \<Rightarrow> nat \<Rightarrow> bool" where
  "near n c k = (k = top_neighbor c n \<or> k = c \<or> k = bottom_neighbor c n)"

definition vertical_blinker_grid :: "nat \<Rightarrow> nat \<Rightarrow> nat \<Rightarrow> nat \<Rightarrow> grid" where
  "vertical_blinker_grid ny nx y0 x0 = pattern_grid ny nx (near ny y0) (\<lambda>x. x = x0 + 1)"

text \<open>The number of live rows among a row and its two neighbours on the torus.\<close>

definition ind :: "bool \<Rightarrow> int" where
  "ind b = (if b then 1 else 0)"

definition window :: "nat \<Rightarrow> (nat \<Rightarrow> bool) \<Rightarrow> nat \<Rightarrow> int" where
  "window n S k = ind (S (top_neighbor k n)) + ind (S k) + ind (S (bottom_neighbor k n))"

section \<open>Properties of the rule\<close>

lemma update_cell_binary: "update_cell v n = 0 \<or> update_cell v n = 1"
  by (simp add: update_cell_def)

lemma stencil_offsets_eq:
  "stencil_offsets = [(-1, -1), (-1, 0), (-1, 1), (0, -1), (0, 1), (1, -1), (1, 0), (1, 1)]"
  by (simp add: stencil_offsets_def)

text \<open>
  C2: for a current value \<open>v\<close> in \<open>{0, 1}\<close> and a neighbour sum \<open>n\<close> in \<open>{0..8}\<close>,
  \<open>update_cell\<close> returns 1 exactly when \<open>v = 1\<close> and \<open>n\<close> is 2 or 3, or \<open>v = 0\<close> and
  \<open>n = 3\<close>; otherwise it returns 0.
\<close>

theorem update_cell_rule:
  assumes "v = 0 \<or> v = 1" and "0 \<le> n" and "n \<le> 8"
  shows "(update_cell v n = 1 \<longleftrightarrow> (v = 1 \<and> (n = 2 \<or> n = 3)) \<or> (v = 0 \<and> n = 3))
       \<and> (update_cell v n \<noteq> 1 \<longrightarrow> update_cell v n = 0)"
  using assms by (auto simp add: update_cell_def)

theorem update_cell_rule_witness:
  "((1::int) = 0 \<or> (1::int) = 1) \<and> (0::int) \<le> 2 \<and> (2::int) \<le> 8
   \<and> update_cell 1 2 = 1 \<and> update_cell 0 3 = 1 \<and> update_cell 1 4 = 0"
proof -
  have a: "(1::int) = 0 \<or> (1::int) = 1" by simp
  have "update_cell 1 2 = 1" using update_cell_rule [OF a, of 2] by simp
  then show ?thesis by (simp add: update_cell_def)
qed

section \<open>What the kernels read and write\<close>

lemma nth_map_upt_from:
  "i < n - m \<Longrightarrow> map f [m..<n] ! i = f (m + i)"
  by simp

lemma binary_map_map:
  "(\<And>i j. f i j = 0 \<or> f i j = (1::int)) \<Longrightarrow> binary (map (\<lambda>i. map (f i) (js i)) is)"
  by (simp add: binary_def list_all_iff)

text \<open>
  C10: \<open>update_cell\<close> returns only 0 or 1, whatever the current value and the neighbour
  sum are, so every cell that either kernel writes is 0 or 1 (for every input patch, in
  particular for one whose cells are 0 or 1).
\<close>

theorem kernel_output_binary:
  "(update_cell v n = 0 \<or> update_cell v n = 1)
   \<and> binary (compute_next_generation local_grid nx)
   \<and> binary (compute_next_generation_2d local_grid)"
proof -
  have "binary (compute_next_generation local_grid nx)"
    unfolding compute_next_generation_def
    by (rule binary_map_map) (rule update_cell_binary)
  moreover have "binary (compute_next_generation_2d local_grid)"
    unfolding compute_next_generation_2d_def
    by (rule binary_map_map) (rule update_cell_binary)
  ultimately show ?thesis using update_cell_binary by blast
qed

lemma reads_2d_eq:
  assumes "1 \<le> i" and "1 \<le> j"
  shows "reads_2d i j =
    [(i - 1, j - 1), (i - 1, j), (i - 1, j + 1), (i, j - 1), (i, j + 1),
     (i + 1, j - 1), (i + 1, j), (i + 1, j + 1)]"
proof -
  have "nat (int i - 1) = i - 1" "nat (int j - 1) = j - 1"
       "nat (int i + 1) = i + 1" "nat (int j + 1) = j + 1"
    by simp_all
  then show ?thesis
    by (simp add: reads_2d_def stencil_offsets_eq)
qed

lemma reads_1d_eq:
  assumes "1 \<le> i" and "j < nx"
  shows "reads_1d nx i j =
    [(i - 1, nat ((int j - 1) mod int nx)), (i - 1, j), (i - 1, (j + 1) mod nx),
     (i, nat ((int j - 1) mod int nx)), (i, (j + 1) mod nx),
     (i + 1, nat ((int j - 1) mod int nx)), (i + 1, j), (i + 1, (j + 1) mod nx)]"
proof -
  have a: "nat (int i - 1) = i - 1" "nat (int i + 1) = i + 1"
    by simp_all
  have b: "nat ((int j + 1) mod int nx) = (j + 1) mod nx"
    by (simp add: nat_mod_distrib nat_add_distrib)
  have c: "nat (int j mod int nx) = j"
    using assms by (simp add: nat_mod_distrib)
  show ?thesis
    by (simp add: reads_1d_def stencil_offsets_eq a b c)
qed

lemma kernel_2d_cell:
  assumes "1 \<le> i" and "i + 1 < length g" and "1 \<le> j" and "j + 1 < ncols g"
  shows "compute_next_generation_2d g ! (i - 1) ! (j - 1) =
         update_cell (g ! i ! j) (sum_list (map (cell_at g) (reads_2d i j)))"
proof -
  have "i - 1 < (length g - 1) - 1" "j - 1 < (ncols g - 1) - 1"
    using assms by arith+
  then show ?thesis
    using assms by (simp add: compute_next_generation_2d_def)
qed

lemma kernel_1d_cell:
  assumes "1 \<le> i" and "i + 1 < length g" and "j < nx"
  shows "compute_next_generation g nx ! (i - 1) ! j =
         update_cell (g ! i ! j) (sum_list (map (cell_at g) (reads_1d nx i j)))"
proof -
  have "i - 1 < (length g - 1) - 1"
    using assms by arith
  then show ?thesis
    using assms by (simp add: compute_next_generation_def)
qed

text \<open>
  C5, as the code has it. The 2-D kernel writes the output cell \<open>(i - 1, j - 1)\<close> for every
  centre \<open>(i, j)\<close> with \<open>i\<close> in \<open>[1, rows]\<close> and \<open>j\<close> in \<open>[1, cols]\<close> from the centre and
  its eight adjacent cells of the padded patch, with no modulus in any index. The 1-D
  kernel has no column halo: its centres are \<open>(i, j)\<close> with \<open>i\<close> in \<open>[1, rows]\<close> and
  \<open>j\<close> in \<open>[0, nx)\<close>, its row indices are \<open>i - 1\<close>, \<open>i\<close>, \<open>i + 1\<close> without a modulus,
  and its column indices are taken modulo \<open>nx\<close> by the kernel itself.
\<close>

theorem kernel_reads:
  assumes "1 \<le> i" and "i + 1 < length g" and "1 \<le> j" and "j + 1 < ncols g"
      and "1 \<le> i'" and "i' + 1 < length h" and "j' < nx"
  shows "reads_2d i j =
           [(i - 1, j - 1), (i - 1, j), (i - 1, j + 1), (i, j - 1), (i, j + 1),
            (i + 1, j - 1), (i + 1, j), (i + 1, j + 1)]
       \<and> compute_next_generation_2d g ! (i - 1) ! (j - 1) =
           update_cell (g ! i ! j) (sum_list (map (cell_at g) (reads_2d i j)))
       \<and> reads_1d nx i' j' =
           [(i' - 1, nat ((int j' - 1) mod int nx)), (i' - 1, j'), (i' - 1, (j' + 1) mod nx),
            (i', nat ((int j' - 1) mod int nx)), (i', (j' + 1) mod nx),
            (i' + 1, nat ((int j' - 1) mod int nx)), (i' + 1, j'), (i' + 1, (j' + 1) mod nx)]
       \<and> compute_next_generation h nx ! (i' - 1) ! j' =
           update_cell (h ! i' ! j') (sum_list (map (cell_at h) (reads_1d nx i' j')))"
  using reads_2d_eq [OF assms(1) assms(3)] kernel_2d_cell [OF assms(1-4)]
        reads_1d_eq [OF assms(5) assms(7)] kernel_1d_cell [OF assms(5-7)]
  by blast

theorem kernel_reads_witness:
  "reads_2d 1 1 = [(0, 0), (0, 1), (0, 2), (1, 0), (1, 2), (2, 0), (2, 1), (2, 2)]
   \<and> compute_next_generation_2d [[1, 1, 0], [1, 0, 0], [0, 0, 0]] ! 0 ! 0 = 1
   \<and> reads_1d 3 1 0 = [(0, 2), (0, 0), (0, 1), (1, 2), (1, 1), (2, 2), (2, 0), (2, 1)]
   \<and> compute_next_generation [[1, 1, 0], [0, 0, 0], [0, 0, 1]] 3 ! 0 ! 0 = 1"
proof -
  have "(1::nat) \<le> 1" "(1::nat) + 1 < length [[1, 1, 0], [1, 0, 0], [0, 0, 0::int]]"
       "(1::nat) + 1 < ncols [[1, 1, 0], [1, 0, 0], [0, 0, 0::int]]"
       "(1::nat) + 1 < length [[1, 1, 0], [0, 0, 0], [0, 0, 1::int]]" "(0::nat) < 3"
    by (simp_all add: ncols_def)
  from kernel_reads [OF this(1) this(2) this(1) this(3) this(1) this(4) this(5)]
  show ?thesis
    by (simp add: cell_at_def update_cell_def)
qed

text \<open>
  The claim fails on the 1-D kernel: for the centre \<open>(1, 0)\<close> of a patch four columns wide
  it reads column 3, which is not adjacent to column 0 in the patch, through its own
  \<open>% nx\<close>; the three live cells of column 3 give birth to the cell in column 0.
\<close>

theorem kernel_1d_wraps_columns:
  "(1, 3) \<in> set (reads_1d 4 1 0)
   \<and> compute_next_generation [[0, 0, 0, 1], [0, 0, 0, 1], [0, 0, 0, 1]] 4 = [[1, 0, 1, 1]]
   \<and> compute_next_generation [[0, 0, 0, 0], [0, 0, 0, 0], [0, 0, 0, 0]] 4 = [[0, 0, 0, 0]]"
  by code_simp

section \<open>Properties of the decomposition plan\<close>

lemma start_of_0 [simp]: "start_of n parts 0 = 0"
  by (simp add: start_of_def)

lemma start_of_Suc: "start_of n parts (Suc p) = start_of n parts p + row_count n parts p"
  by (simp add: start_of_def)

lemma start_of_closed: "start_of n parts p = p * (n div parts) + min p (n mod parts)"
  by (induction p) (auto simp add: start_of_Suc row_count_def)

lemma start_of_total: "0 < parts \<Longrightarrow> start_of n parts parts = n"
proof -
  assume "0 < parts"
  then have "n mod parts < parts" by simp
  then have "min parts (n mod parts) = n mod parts" by simp
  then show ?thesis by (simp add: start_of_closed)
qed

lemma start_of_mono: "p \<le> p' \<Longrightarrow> start_of n parts p \<le> start_of n parts p'"
  by (induction p' ) (auto simp add: start_of_Suc le_Suc_eq)

lemma start_of_end_mono: "p < p' \<Longrightarrow> start_of n parts p + row_count n parts p \<le> start_of n parts p'"
  using start_of_mono [of "Suc p" p' n parts] by (simp add: start_of_Suc)

lemma owned_disjoint: "p \<noteq> p' \<Longrightarrow> owned n parts p \<inter> owned n parts p' = {}"
proof -
  assume "p \<noteq> p'"
  then consider "p < p'" | "p' < p" by arith
  then show ?thesis
  proof cases
    case 1
    from start_of_end_mono [OF this, of n parts] show ?thesis by (auto simp add: owned_def)
  next
    case 2
    from start_of_end_mono [OF this, of n parts] show ?thesis by (auto simp add: owned_def)
  qed
qed

lemma owned_union_upto: "(\<Union>p<k. owned n parts p) = {0..<start_of n parts k}"
proof (induction k)
  case 0
  then show ?case by simp
next
  case (Suc k)
  have "(\<Union>p<Suc k. owned n parts p) = (\<Union>p<k. owned n parts p) \<union> owned n parts k"
    by (simp add: lessThan_Suc Un_commute)
  then show ?case
    using Suc by (auto simp add: owned_def start_of_Suc)
qed

lemma owned_cover: "0 < parts \<Longrightarrow> (\<Union>p<parts. owned n parts p) = {0..<n}"
  by (simp add: owned_union_upto start_of_total)

lemma row_count_remainder_rule:
  assumes "n = q * parts + s" and "s < parts"
  shows "row_count n parts r = (if r < s then q + 1 else q)"
proof -
  have "n mod parts = s" "n div parts = q" using assms by simp_all
  then show ?thesis by (simp add: row_count_def)
qed

lemma row_count_imbalance: "row_count n parts r \<le> row_count n parts r' + 1"
  by (simp add: row_count_def)

lemma start_of_end_le:
  assumes "r < parts"
  shows "start_of n parts r + row_count n parts r \<le> n"
proof -
  have "start_of n parts (Suc r) \<le> start_of n parts parts"
    using assms by (intro start_of_mono) simp
  then show ?thesis
    using assms by (simp add: start_of_Suc start_of_total)
qed

lemma wrap32_id: "0 \<le> i \<Longrightarrow> i < 2 ^ 31 \<Longrightarrow> wrap32 i = i"
  by (simp add: wrap32_def)

lemma wrap32_nat: "n < 2 ^ 31 \<Longrightarrow> wrap32 (int n) = int n"
  by (rule wrap32_id) simp_all

lemma wrap32_nat_mult: "a * b < 2 ^ 31 \<Longrightarrow> wrap32 (int a * int b) = int a * int b"
  using wrap32_nat [of "a * b"] by simp

lemma mod_sum_shift: "(A mod m + B mod m - c) mod m = (A + B - c) mod (m::int)"
  by (metis mod_add_eq mod_diff_left_eq)

lemma wrap32_add: "wrap32 (wrap32 a + wrap32 b) = wrap32 (a + b)"
proof -
  have "wrap32 a + wrap32 b + 2 ^ 31
        = (a + 2 ^ 31) mod 2 ^ 32 + (b + 2 ^ 31) mod 2 ^ 32 - 2 ^ 31"
    by (simp add: wrap32_def)
  then have "(wrap32 a + wrap32 b + 2 ^ 31) mod 2 ^ 32
        = ((a + 2 ^ 31) + (b + 2 ^ 31) - 2 ^ 31) mod 2 ^ 32"
    by (simp only: mod_sum_shift)
  also have "(a + 2 ^ 31) + (b + 2 ^ 31) - 2 ^ 31 = a + b + 2 ^ 31"
    by simp
  finally show ?thesis
    by (simp only: wrap32_def)
qed

lemma fold_distribution:
  "fold (\<lambda>r (send_counts, displacements, offset).
                   (send_counts @ [wrap32 (int (row_count ny nprocs r) * int nx)],
                    displacements @ [offset],
                    wrap32 (offset + wrap32 (int (row_count ny nprocs r) * int nx))))
                [0..<k] ([], [], 0)
   = (map (\<lambda>r. wrap32 (int (row_count ny nprocs r * nx))) [0..<k],
      map (\<lambda>r. wrap32 (int (start_of ny nprocs r * nx))) [0..<k],
      wrap32 (int (start_of ny nprocs k * nx)))"
proof (induction k)
  case 0
  show ?case
    by (simp add: wrap32_def)
next
  case (Suc k)
  have "wrap32 (wrap32 (int (start_of ny nprocs k * nx)) + wrap32 (int (row_count ny nprocs k * nx)))
        = wrap32 (int (start_of ny nprocs (Suc k) * nx))"
    by (simp add: wrap32_add start_of_Suc add_mult_distrib)
  then show ?case
    using Suc by simp
qed

lemma distribution_wraps:
  "distribution ny nx nprocs =
     (map (\<lambda>r. wrap32 (int (row_count ny nprocs r * nx))) [0..<nprocs],
      map (\<lambda>r. wrap32 (int (start_of ny nprocs r * nx))) [0..<nprocs])"
  by (simp add: distribution_def fold_distribution)

lemma strip_cells_bound:
  assumes "ny * nx < 2 ^ 31" and "r < nprocs"
  shows "row_count ny nprocs r * nx < 2 ^ 31" and "start_of ny nprocs r * nx < 2 ^ 31"
    and "start_of ny nprocs r * nx + row_count ny nprocs r * nx \<le> ny * nx"
proof -
  have "(start_of ny nprocs r + row_count ny nprocs r) * nx \<le> ny * nx"
    by (rule mult_le_mono1 [OF start_of_end_le [OF assms(2)]])
  then show c: "start_of ny nprocs r * nx + row_count ny nprocs r * nx \<le> ny * nx"
    by (simp add: add_mult_distrib)
  show "row_count ny nprocs r * nx < 2 ^ 31" "start_of ny nprocs r * nx < 2 ^ 31"
    using c assms(1) by simp_all
qed

lemma distribution_eq:
  assumes "ny * nx < 2 ^ 31"
  shows "distribution ny nx nprocs =
     (map (\<lambda>r. int (row_count ny nprocs r * nx)) [0..<nprocs],
      map (\<lambda>r. int (start_of ny nprocs r * nx)) [0..<nprocs])"
  unfolding distribution_wraps
  using strip_cells_bound(1,2) [OF assms] by (simp add: wrap32_nat_mult)

lemma patch_region_disjoint:
  "c \<noteq> c' \<Longrightarrow> patch_region ny nx Py Px c \<inter> patch_region ny nx Py Px c' = {}"
proof -
  assume "c \<noteq> c'"
  then have "fst c \<noteq> fst c' \<or> snd c \<noteq> snd c'" by (auto simp add: prod_eq_iff)
  then show ?thesis
    using owned_disjoint [of "fst c" "fst c'" ny Py] owned_disjoint [of "snd c" "snd c'" nx Px]
    by (auto simp add: patch_region_def)
qed

lemma patch_region_cover:
  assumes "0 < Py" and "0 < Px"
  shows "(\<Union>c \<in> {..<Py} \<times> {..<Px}. patch_region ny nx Py Px c) = {0..<ny} \<times> {0..<nx}"
proof -
  have "(\<Union>c \<in> {..<Py} \<times> {..<Px}. patch_region ny nx Py Px c)
        = (\<Union>p<Py. owned ny Py p) \<times> (\<Union>p<Px. owned nx Px p)"
    by (auto simp add: patch_region_def)
  then show ?thesis
    using assms by (simp add: owned_cover)
qed

text \<open>
  C4: both layouts distribute rows (and columns) by the remainder rule: with
  \<open>ny = q * Py + s\<close> and \<open>s < Py\<close> the first \<open>s\<close> strips get \<open>q + 1\<close> rows and the
  rest \<open>q\<close>. The loop of the 1-D driver computes the cell counts \<open>row_count * nx\<close> and
  the matching offsets in \<open>int32\<close> arithmetic, from the \<open>int32\<close> values \<open>ny\<close> and \<open>nx\<close>: they
  are the exact products brought into \<open>int32\<close>, and the exact products when the grid has
  fewer than \<open>2 ^ 31\<close> cells.
  The owned regions of the patches cover \<open>[0, ny) \<times> [0, nx)\<close> and are pairwise
  disjoint, the start offsets are monotonic, and two row counts differ by at most 1.
  The 1-D layout is the case \<open>Px = 1\<close>, where every strip owns all \<open>nx\<close> columns.
\<close>

theorem remainder_rule_partition:
  assumes "0 < Py" and "0 < Px" and "ny = q * Py + s" and "s < Py"
  shows "row_count ny Py r = (if r < s then q + 1 else q)
       \<and> (ny < 2 ^ 31 \<and> nx < 2 ^ 31 \<longrightarrow>
            distribution ny nx Py =
              (map (\<lambda>r. wrap32 (int (row_count ny Py r * nx))) [0..<Py],
               map (\<lambda>r. wrap32 (int (start_of ny Py r * nx))) [0..<Py]))
       \<and> (ny < 2 ^ 31 \<and> nx < 2 ^ 31 \<and> ny * nx < 2 ^ 31 \<longrightarrow>
            distribution ny nx Py =
              (map (\<lambda>r. int (row_count ny Py r * nx)) [0..<Py],
               map (\<lambda>r. int (start_of ny Py r * nx)) [0..<Py]))
       \<and> (\<Union>c \<in> {..<Py} \<times> {..<Px}. patch_region ny nx Py Px c) = {0..<ny} \<times> {0..<nx}
       \<and> (\<forall>c c'. c \<noteq> c' \<longrightarrow> patch_region ny nx Py Px c \<inter> patch_region ny nx Py Px c' = {})
       \<and> owned nx 1 0 = {0..<nx}
       \<and> (\<forall>p p'. p \<le> p' \<longrightarrow> start_of ny Py p \<le> start_of ny Py p')
       \<and> start_of ny Py Py = ny
       \<and> (\<forall>p p'. row_count ny Py p \<le> row_count ny Py p' + 1)"
proof -
  have 1: "row_count ny Py r = (if r < s then q + 1 else q)"
    by (rule row_count_remainder_rule [OF assms(3,4)])
  have 2: "ny < 2 ^ 31 \<and> nx < 2 ^ 31 \<longrightarrow>
            distribution ny nx Py =
              (map (\<lambda>r. wrap32 (int (row_count ny Py r * nx))) [0..<Py],
               map (\<lambda>r. wrap32 (int (start_of ny Py r * nx))) [0..<Py])"
    using distribution_wraps by blast
  have 9: "ny < 2 ^ 31 \<and> nx < 2 ^ 31 \<and> ny * nx < 2 ^ 31 \<longrightarrow>
            distribution ny nx Py =
              (map (\<lambda>r. int (row_count ny Py r * nx)) [0..<Py],
               map (\<lambda>r. int (start_of ny Py r * nx)) [0..<Py])"
    using distribution_eq by blast
  have 3: "(\<Union>c \<in> {..<Py} \<times> {..<Px}. patch_region ny nx Py Px c) = {0..<ny} \<times> {0..<nx}"
    by (rule patch_region_cover [OF assms(1,2)])
  have 4: "\<forall>c c'. c \<noteq> c' \<longrightarrow> patch_region ny nx Py Px c \<inter> patch_region ny nx Py Px c' = {}"
    using patch_region_disjoint by blast
  have 5: "owned nx 1 0 = {0..<nx}"
    by (simp add: owned_def row_count_def)
  have 6: "\<forall>p p'. p \<le> p' \<longrightarrow> start_of ny Py p \<le> start_of ny Py p'"
    using start_of_mono by blast
  have 7: "start_of ny Py Py = ny"
    by (rule start_of_total [OF assms(1)])
  have 8: "\<forall>p p'. row_count ny Py p \<le> row_count ny Py p' + 1"
    using row_count_imbalance by blast
  show ?thesis
    by (intro conjI 1 2 9 3 4 5 6 7 8)
qed

theorem remainder_rule_partition_witness:
  "(0::nat) < 3 \<and> (0::nat) < 2 \<and> (8::nat) = 2 * 3 + 2 \<and> (2::nat) < 3
   \<and> (8::nat) < 2 ^ 31 \<and> (5::nat) < 2 ^ 31 \<and> (8::nat) * 5 < 2 ^ 31
   \<and> map (row_count 8 3) [0, 1, 2] = [3, 3, 2]
   \<and> distribution 8 5 3 = ([15, 15, 10], [0, 15, 30])
   \<and> start_of 8 3 3 = 8"
proof -
  have a: "(0::nat) < 3" "(0::nat) < 2" "(8::nat) = 2 * 3 + 2" "(2::nat) < 3"
    by simp_all
  have c: "(8::nat) < 2 ^ 31 \<and> (5::nat) < 2 ^ 31 \<and> (8::nat) * 5 < 2 ^ 31"
    by simp
  have b: "[0..<3] = [0, 1, 2]"
    by (simp add: upt_rec)
  note t = remainder_rule_partition [OF a, of 0 5]
  have "distribution 8 5 3 =
         (map (\<lambda>r. int (row_count 8 3 r * 5)) [0..<3], map (\<lambda>r. int (start_of 8 3 r * 5)) [0..<3])"
    by (rule t [THEN conjunct2, THEN conjunct2, THEN conjunct1, rule_format, OF c])
  moreover have "start_of 8 3 3 = 8"
    using t by blast
  ultimately show ?thesis
    by (simp add: b start_of_closed row_count_def)
qed

section \<open>Lists of rows\<close>

lemma shape_nth: "shape g r c \<Longrightarrow> i < r \<Longrightarrow> length (g ! i) = c"
  by (simp add: shape_def list_all_length)

lemma shape_length: "shape g r c \<Longrightarrow> length g = r"
  by (simp add: shape_def)

lemma shapeI: "length g = r \<Longrightarrow> (\<And>i. i < r \<Longrightarrow> length (g ! i) = c) \<Longrightarrow> shape g r c"
  by (simp add: shape_def list_all_length)

lemma shape_take_drop:
  "shape g r c \<Longrightarrow> a + b \<le> r \<Longrightarrow> shape (take b (drop a g)) b c"
  by (simp add: shape_def list_all_length)

lemma concat_uniform_length:
  "list_all (\<lambda>row. length row = c) g \<Longrightarrow> length (concat g) = length g * c"
  by (induction g) simp_all

lemma drop_concat_uniform:
  "list_all (\<lambda>row. length row = c) g \<Longrightarrow> drop (k * c) (concat g) = concat (drop k g)"
proof (induction g arbitrary: k)
  case Nil
  then show ?case by simp
next
  case (Cons row g)
  show ?case
  proof (cases k)
    case 0
    then show ?thesis by simp
  next
    case (Suc k')
    with Cons show ?thesis by simp
  qed
qed

lemma take_concat_uniform:
  "list_all (\<lambda>row. length row = c) g \<Longrightarrow> take (k * c) (concat g) = concat (take k g)"
proof (induction g arbitrary: k)
  case Nil
  then show ?case by simp
next
  case (Cons row g)
  show ?case
  proof (cases k)
    case 0
    then show ?thesis by simp
  next
    case (Suc k')
    with Cons show ?thesis by simp
  qed
qed

lemma reshape_flatten:
  assumes "shape g r c"
  shows "reshape r c (flatten g) = g"
proof (rule nth_equalityI)
  show "length (reshape r c (flatten g)) = length g"
    using assms by (simp add: reshape_def shape_def)
next
  fix i
  assume "i < length (reshape r c (flatten g))"
  then have i: "i < r" by (simp add: reshape_def)
  have u: "list_all (\<lambda>row. length row = c) g" and l: "length g = r"
    using assms by (simp_all add: shape_def)
  have "drop (i * c) (concat g) = concat (drop i g)"
    by (rule drop_concat_uniform [OF u])
  also have "drop i g = g ! i # drop (Suc i) g"
    using i l by (simp add: Cons_nth_drop_Suc)
  finally have "take c (drop (i * c) (concat g)) = g ! i"
    using shape_nth [OF assms i] by simp
  then show "reshape r c (flatten g) ! i = g ! i"
    using i by (simp add: reshape_def flatten_def)
qed

lemma scatterv_rows:
  assumes "list_all (\<lambda>row. length row = c) g"
  shows "take (b * c) (drop (a * c) (concat g)) = concat (take b (drop a g))"
proof -
  have "list_all (\<lambda>row. length row = c) (drop a g)"
    using assms by (simp add: list_all_length)
  then show ?thesis
    by (simp add: drop_concat_uniform [OF assms] take_concat_uniform)
qed

lemma interior_rows_padded [simp]: "interior_rows (a # blk @ [b]) = blk"
  by (simp add: interior_rows_def)

lemma interior_rows_halo_update:
  "interior_rows (g[0 := a, length g - 1 := b]) = interior_rows g"
proof (rule nth_equalityI)
  show "length (interior_rows (g[0 := a, length g - 1 := b])) = length (interior_rows g)"
    by (simp add: interior_rows_def)
next
  fix i
  assume "i < length (interior_rows (g[0 := a, length g - 1 := b]))"
  then have "i < length g - 2" by (simp add: interior_rows_def)
  then show "interior_rows (g[0 := a, length g - 1 := b]) ! i = interior_rows g ! i"
    by (simp add: interior_rows_def)
qed

lemma set_rows_interior:
  assumes "length g = length blk + 2"
  shows "set_rows g 1 blk = g ! 0 # blk @ [g ! (length blk + 1)]"
proof -
  have "take 1 g = [g ! 0]"
    using assms by (cases g) simp_all
  moreover have "drop (Suc (length blk)) g = [g ! (length blk + 1)]"
    using assms by (metis Cons_nth_drop_Suc Suc_eq_plus1 add_2_eq_Suc' drop_all lessI order_refl)
  ultimately show ?thesis
    by (simp add: set_rows_def)
qed

lemma set_rows_zeros:
  assumes "length blk = r"
  shows "set_rows (zeros (r + 2) c) 1 blk = replicate c 0 # blk @ [replicate c 0]"
proof -
  have l: "length (zeros (r + 2) c) = length blk + 2"
    using assms by (simp add: zeros_def)
  have a: "zeros (r + 2) c ! 0 = replicate c 0"
    by (simp add: zeros_def)
  have b: "zeros (r + 2) c ! (length blk + 1) = replicate c 0"
    unfolding zeros_def by (rule nth_replicate) (simp add: assms)
  show ?thesis
    using set_rows_interior [OF l] by (simp only: a b)
qed

lemma set_rows_zeros_Suc:
  "length blk = r \<Longrightarrow>
   set_rows (zeros (Suc (Suc r)) c) (Suc 0) blk = replicate c 0 # blk @ [replicate c 0]"
  using set_rows_zeros [of blk r c] by simp

section \<open>Scatter and gather of the 1-D program\<close>

lemma strip_of_shape:
  assumes "shape G ny nx" and "r < nprocs"
  shows "shape (strip_of ny nprocs G r) (row_count ny nprocs r) nx"
  unfolding strip_of_def
  by (rule shape_take_drop [OF assms(1) start_of_end_le [OF assms(2)]])

lemma strip_of_length:
  assumes "shape G ny nx" and "r < nprocs"
  shows "length (strip_of ny nprocs G r) = row_count ny nprocs r"
  using strip_of_shape [OF assms] by (simp add: shape_def)

lemma strip_of_nth:
  assumes "shape G ny nx" and "r < nprocs" and "i < row_count ny nprocs r"
  shows "strip_of ny nprocs G r ! i = G ! (start_of ny nprocs r + i)"
proof -
  have "start_of ny nprocs r + i < length G"
    using start_of_end_le [OF assms(2), of ny] assms(1,3) by (simp add: shape_def)
  then show ?thesis
    using assms(3) by (simp add: strip_of_def)
qed

lemma collect_Inr:
  assumes "\<And>x. x \<in> set xs \<Longrightarrow> g x = Inr (f x)"
  shows "collect (map g xs) = Inr (map f xs)"
  using assms by (induction xs) simp_all

lemma int_product_not_negative [simp]: "\<not> int a * int b < 0"
  by (simp add: not_less)

lemma nat_int_product [simp]: "nat (int a * int b) = a * b"
  by (simp add: nat_mult_distrib)

lemma np_zeros_cells:
  assumes "a * b < 2 ^ 31"
  shows "np_zeros (wrap32 (int a * int b)) = Inr (replicate (a * b) 0)"
  by (simp add: wrap32_nat_mult [OF assms] np_zeros_def)

lemma flatten_length:
  assumes "shape G ny nx"
  shows "length (flatten G) = ny * nx"
  using assms by (simp add: flatten_def shape_def concat_uniform_length [of nx])

lemma scatter_1d_rank:
  assumes "shape G ny nx" and "ny * nx < 2 ^ 31" and "r < nprocs"
  shows "(let local_rows = row_count ny nprocs r
          in case np_zeros (wrap32 (int local_rows * int nx)) of
               Inl e \<Rightarrow> Inl e
             | Inr recvbuf \<Rightarrow>
                 (case scatterv (flatten G)
                         (map (\<lambda>r. int (row_count ny nprocs r * nx)) [0..<nprocs])
                         (map (\<lambda>r. int (start_of ny nprocs r * nx)) [0..<nprocs]) recvbuf r of
                    Inl e \<Rightarrow> Inl e
                  | Inr local_data \<Rightarrow>
                      (case np_reshape local_rows nx local_data of
                         Inl e \<Rightarrow> Inl e
                       | Inr local_grid_2d \<Rightarrow>
                           Inr (set_rows (zeros (local_rows + 2) nx) 1 local_grid_2d))))
         = Inr (replicate nx 0 # strip_of ny nprocs G r @ [replicate nx 0])"
proof -
  define R where "R = row_count ny nprocs r"
  define S where "S = start_of ny nprocs r"
  have u: "list_all (\<lambda>row. length row = nx) G"
    using assms(1) by (simp add: shape_def)
  have fit: "R * nx < 2 ^ 31" "S * nx + R * nx \<le> ny * nx"
    unfolding R_def S_def by (rule strip_cells_bound [OF assms(2,3)])+
  have z: "np_zeros (wrap32 (int R * int nx)) = Inr (replicate (R * nx) 0)"
    by (rule np_zeros_cells [OF fit(1)])
  have seg: "take (R * nx) (drop (S * nx) (flatten G)) = flatten (strip_of ny nprocs G r)"
    by (simp add: flatten_def strip_of_def scatterv_rows [OF u] R_def S_def)
  have "int (S * nx) + int (R * nx) \<le> int (length (flatten G))"
    using fit(2) by (simp only: flatten_length [OF assms(1)] of_nat_add [symmetric] of_nat_le_iff)
  then have sc: "scatterv (flatten G)
                   (map (\<lambda>r. int (row_count ny nprocs r * nx)) [0..<nprocs])
                   (map (\<lambda>r. int (start_of ny nprocs r * nx)) [0..<nprocs])
                   (replicate (R * nx) 0) r
                 = Inr (flatten (strip_of ny nprocs G r))"
    using assms(3) seg by (simp add: scatterv_def Let_def R_def [symmetric] S_def [symmetric])
  have len: "length (flatten (strip_of ny nprocs G r)) = R * nx"
    unfolding R_def by (rule flatten_length [OF strip_of_shape [OF assms(1,3)]])
  have rs: "np_reshape R nx (flatten (strip_of ny nprocs G r)) = Inr (strip_of ny nprocs G r)"
    using len reshape_flatten [OF strip_of_shape [OF assms(1,3)]]
    by (simp add: np_reshape_def R_def)
  have halo: "set_rows (zeros (R + 2) nx) 1 (strip_of ny nprocs G r)
              = replicate nx 0 # strip_of ny nprocs G r @ [replicate nx 0]"
    using strip_of_length [OF assms(1,3)] by (simp add: set_rows_zeros_Suc R_def)
  show ?thesis
    unfolding Let_def R_def [symmetric]
    by (simp only: z sc rs halo sum.case)
qed

lemma scatter_1d_eq:
  assumes "shape G ny nx" and "ny * nx < 2 ^ 31"
  shows "scatter_1d nprocs ny nx G = Inr (padded_strips nprocs ny nx G)"
  unfolding scatter_1d_def distribution_eq [OF assms(2)] prod.case padded_strips_def
  by (rule collect_Inr) (simp add: scatter_1d_rank [OF assms])

lemma padded_strips_owns:
  assumes "shape G ny nx"
  shows "owns_1d ny nprocs G (padded_strips nprocs ny nx G)"
  using strip_of_length [OF assms]
  by (simp add: owns_1d_def padded_strips_def)

lemma write_at_append:
  assumes "length pre = off" and "off + length data \<le> length pre + length post"
  shows "write_at (pre @ post) off data = pre @ data @ drop (length data) post"
  using assms by (simp add: write_at_def)

lemma fold_write_at:
  assumes "off 0 = 0" and "\<And>r. r < k \<Longrightarrow> off (Suc r) = off r + length (data r)"
      and "off k \<le> length buf"
  shows "fold (\<lambda>r b. write_at b (off r) (data r)) [0..<k] buf
         = concat (map data [0..<k]) @ drop (off k) buf"
  using assms(2,3)
proof (induction k)
  case 0
  then show ?case using assms(1) by simp
next
  case (Suc k)
  have le: "off k \<le> length buf"
    using Suc.prems by simp
  have len: "length (concat (map data [0..<k])) = off k"
    using Suc.prems(1) assms(1)
  proof (induction k)
    case 0
    then show ?case by simp
  next
    case (Suc j)
    then show ?case by simp
  qed
  have ih: "fold (\<lambda>r b. write_at b (off r) (data r)) [0..<k] buf
            = concat (map data [0..<k]) @ drop (off k) buf"
    using Suc by simp
  have "write_at (concat (map data [0..<k]) @ drop (off k) buf) (off k) (data k)
        = concat (map data [0..<k]) @ data k @ drop (length (data k)) (drop (off k) buf)"
    using len le Suc.prems by (intro write_at_append) simp_all
  then show ?case
    using ih Suc.prems(1) [of k] by (simp add: add.commute)
qed

lemma concat_strips:
  assumes "k \<le> nprocs"
  shows "concat (map (\<lambda>r. flatten (strip_of ny nprocs G r)) [0..<k])
         = concat (take (start_of ny nprocs k) G)"
  using assms
proof (induction k)
  case 0
  then show ?case by simp
next
  case (Suc k)
  then show ?case
    by (simp add: start_of_Suc take_add flatten_def strip_of_def)
qed

lemma gather_grid_owned:
  assumes "shape G ny nx" and "owns_1d ny nprocs G locals" and "0 < nprocs"
      and "ny * nx < 2 ^ 31"
  shows "gather_grid locals nprocs ny nx = Inr G"
proof -
  define data where "data r = flatten (strip_of ny nprocs G r)" for r
  define off where "off r = start_of ny nprocs r * nx" for r
  define sendbufs where "sendbufs = map (\<lambda>local_grid. flatten (interior_rows local_grid)) locals"
  define counts where "counts = map (\<lambda>r. int (row_count ny nprocs r * nx)) [0..<nprocs]"
  define displs where "displs = map (\<lambda>r. int (start_of ny nprocs r * nx)) [0..<nprocs]"
  have len: "length locals = nprocs"
    using assms(2) by (simp add: owns_1d_def)
  have data_len: "length (data r) = row_count ny nprocs r * nx" if "r < nprocs" for r
    unfolding data_def by (rule flatten_length [OF strip_of_shape [OF assms(1) that]])
  have send: "sendbufs ! r = data r" if "r < nprocs" for r
    using assms(2) that len by (simp add: sendbufs_def data_def owns_1d_def)
  have step: "\<And>r. r < nprocs \<Longrightarrow> off (Suc r) = off r + length (data r)"
    by (simp add: off_def data_len start_of_Suc add_mult_distrib)
  have total: "off nprocs = ny * nx"
    using assms(3) by (simp add: off_def start_of_total)
  have z: "np_zeros (wrap32 (int ny * int nx)) = Inr (replicate (ny * nx) 0)"
    by (rule np_zeros_cells [OF assms(4)])
  have ok: "0 \<le> counts ! r \<and> 0 \<le> displs ! r
            \<and> displs ! r + counts ! r \<le> int (length (replicate (ny * nx) (0::int)))
            \<and> int (length (sendbufs ! r)) \<le> counts ! r"
    if r: "r < nprocs" for r
  proof -
    have "int (start_of ny nprocs r * nx) + int (row_count ny nprocs r * nx) \<le> int (ny * nx)"
      using strip_cells_bound(3) [OF assms(4) r]
      by (simp only: of_nat_add [symmetric] of_nat_le_iff)
    then show ?thesis
      using r by (simp add: counts_def displs_def send [OF r] data_len [OF r])
  qed
  have "fold (\<lambda>r buf. write_at buf (nat (displs ! r)) (sendbufs ! r)) [0..<nprocs]
          (replicate (ny * nx) 0)
        = fold (\<lambda>r b. write_at b (off r) (data r)) [0..<nprocs] (replicate (ny * nx) 0)"
  proof (rule fold_cong [OF refl refl])
    fix r
    assume "r \<in> set [0..<nprocs]"
    then have r: "r < nprocs" by simp
    show "(\<lambda>buf. write_at buf (nat (displs ! r)) (sendbufs ! r)) = (\<lambda>b. write_at b (off r) (data r))"
      using r by (simp add: displs_def off_def send [OF r])
  qed
  also have "\<dots> = concat (map data [0..<nprocs]) @ drop (off nprocs) (replicate (ny * nx) 0)"
  proof (rule fold_write_at)
    show "off 0 = 0"
      by (simp add: off_def)
    show "\<And>r. r < nprocs \<Longrightarrow> off (Suc r) = off r + length (data r)"
      by (rule step)
    show "off nprocs \<le> length (replicate (ny * nx) (0::int))"
      by (simp add: total)
  qed
  also have "\<dots> = flatten G"
  proof -
    have "data = (\<lambda>r. flatten (strip_of ny nprocs G r))"
      by (simp add: data_def fun_eq_iff)
    then show ?thesis
      using concat_strips [of nprocs nprocs ny G] assms(1,3)
      by (simp add: total start_of_total flatten_def shape_def)
  qed
  finally have folded:
    "fold (\<lambda>r buf. write_at buf (nat (displs ! r)) (sendbufs ! r)) [0..<nprocs]
       (replicate (ny * nx) 0) = flatten G" .
  have "list_all (\<lambda>r. 0 \<le> counts ! r \<and> 0 \<le> displs ! r
                        \<and> displs ! r + counts ! r \<le> int (length (replicate (ny * nx) (0::int)))
                        \<and> int (length (sendbufs ! r)) \<le> counts ! r) [0..<length sendbufs]"
    unfolding list_all_iff using ok by (simp add: sendbufs_def len)
  then have g: "gatherv sendbufs (replicate (ny * nx) 0) counts displs = Inr (flatten G)"
    unfolding gatherv_def using folded by (simp add: sendbufs_def len)
  have rs: "np_reshape ny nx (flatten G) = Inr G"
    by (simp add: np_reshape_def flatten_length [OF assms(1)] reshape_flatten [OF assms(1)])
  show ?thesis
    unfolding gather_grid_def distribution_eq [OF assms(4)] prod.case
      sendbufs_def [symmetric] counts_def [symmetric] displs_def [symmetric]
    by (simp only: z g rs sum.case)
qed

section \<open>The halo exchange of the 1-D program\<close>

lemma find_append_cases:
  "find Q (xs @ ys) = (case find Q xs of None \<Rightarrow> find Q ys | Some x \<Rightarrow> Some x)"
  by (induction xs) simp_all

lemma find_concat_block:
  assumes "s \<in> set xs"
      and "\<And>s' m. s' \<in> set xs \<Longrightarrow> s' \<noteq> s \<Longrightarrow> m \<in> set (f s') \<Longrightarrow> \<not> Q m"
      and "find Q (f s) = Some m"
  shows "find Q (concat (map f xs)) = Some m"
  using assms(1,2)
proof (induction xs)
  case Nil
  then show ?case by simp
next
  case (Cons x xs)
  show ?case
  proof (cases "x = s")
    case True
    then show ?thesis
      using assms(3) by (simp add: find_append_cases)
  next
    case False
    then have "find Q (f x) = None"
      using Cons.prems(2) [of x] by (simp add: find_None_iff)
    moreover have "find Q (concat (map f xs)) = Some m"
    proof (rule Cons.IH)
      show "s \<in> set xs"
        using Cons.prems(1) False by auto
    next
      fix s' m'
      assume "s' \<in> set xs" and "s' \<noteq> s" and "m' \<in> set (f s')"
      then show "\<not> Q m'"
        using Cons.prems(2) [of s' m'] by simp
    qed
    ultimately show ?thesis
      by (simp add: find_append_cases)
  qed
qed

lemma top_neighbor_less: "0 < nprocs \<Longrightarrow> top_neighbor r nprocs < nprocs"
  by (simp add: top_neighbor_def nat_less_iff)

lemma bottom_neighbor_less: "0 < nprocs \<Longrightarrow> bottom_neighbor r nprocs < nprocs"
  by (simp add: bottom_neighbor_def)

lemma top_neighbor_eq:
  assumes "r < nprocs"
  shows "top_neighbor r nprocs = (if r = 0 then nprocs - 1 else r - 1)"
proof (cases "r = 0")
  case True
  have "(- 1) mod int nprocs = int nprocs - 1"
    using assms by (simp add: zmod_minus1)
  then show ?thesis
    using True assms by (simp add: top_neighbor_def)
next
  case False
  then have "(int r - 1) mod int nprocs = int r - 1"
    using assms by simp
  then show ?thesis
    using False by (simp add: top_neighbor_def)
qed

lemma bottom_neighbor_eq:
  assumes "r < nprocs"
  shows "bottom_neighbor r nprocs = (if r + 1 = nprocs then 0 else r + 1)"
  using assms by (simp add: bottom_neighbor_def)

lemma bottom_of_top: "r < nprocs \<Longrightarrow> bottom_neighbor (top_neighbor r nprocs) nprocs = r"
  by (auto simp add: top_neighbor_eq bottom_neighbor_def)

lemma top_of_bottom:
  assumes "r < nprocs"
  shows "top_neighbor (bottom_neighbor r nprocs) nprocs = r"
proof -
  have "bottom_neighbor r nprocs < nprocs"
    using assms by (simp add: bottom_neighbor_def)
  then show ?thesis
    using assms by (auto simp add: top_neighbor_eq bottom_neighbor_eq split: if_splits)
qed

lemma halo_sends_src: "m \<in> set (halo_sends g s nprocs) \<Longrightarrow> src m = s"
  by (auto simp add: halo_sends_def Let_def)

lemma receive_posted:
  assumes "s < nprocs"
      and "find (\<lambda>m. src m = s \<and> dest m = r \<and> tag m = t) (halo_sends (locals ! s) s nprocs)
           = Some m"
  shows "receive (concat (map (\<lambda>rank. halo_sends (locals ! rank) rank nprocs) [0..<nprocs])) r s t
         = Some (payload m)"
proof -
  have "find (\<lambda>m. src m = s \<and> dest m = r \<and> tag m = t)
          (concat (map (\<lambda>rank. halo_sends (locals ! rank) rank nprocs) [0..<nprocs])) = Some m"
  proof (rule find_concat_block [where s = s])
    show "s \<in> set [0..<nprocs]"
      using assms(1) by simp
    show "find (\<lambda>m. src m = s \<and> dest m = r \<and> tag m = t) (halo_sends (locals ! s) s nprocs) = Some m"
      by (rule assms(2))
  next
    fix s' m'
    assume "s' \<noteq> s" and "m' \<in> set (halo_sends (locals ! s') s' nprocs)"
    then show "\<not> (src m' = s \<and> dest m' = r \<and> tag m' = t)"
      using halo_sends_src by blast
  qed
  then show ?thesis
    by (simp add: receive_def)
qed

lemma receive_from_top:
  assumes "r < nprocs"
  shows "receive (concat (map (\<lambda>rank. halo_sends (locals ! rank) rank nprocs) [0..<nprocs]))
           r (top_neighbor r nprocs) 0
         = Some (locals ! top_neighbor r nprocs ! (length (locals ! top_neighbor r nprocs) - 2))"
proof -
  have "0 < nprocs" using assms by simp
  from receive_posted [OF top_neighbor_less [OF this], of r r 0 locals]
  show ?thesis
    using bottom_of_top [OF assms] by (simp add: halo_sends_def Let_def)
qed

lemma receive_from_bottom:
  assumes "r < nprocs"
  shows "receive (concat (map (\<lambda>rank. halo_sends (locals ! rank) rank nprocs) [0..<nprocs]))
           r (bottom_neighbor r nprocs) 1
         = Some (locals ! bottom_neighbor r nprocs ! 1)"
proof -
  have "0 < nprocs" using assms by simp
  from receive_posted [OF bottom_neighbor_less [OF this], of r r 1 locals]
  show ?thesis
    using top_of_bottom [OF assms] by (simp add: halo_sends_def Let_def)
qed

lemma those_map_Some:
  "(\<And>x. x \<in> set xs \<Longrightarrow> f x = Some (g x)) \<Longrightarrow> those (map f xs) = Some (map g xs)"
  by (induction xs) simp_all

lemma exchange_halo_all_eq:
  "exchange_halo_all locals nprocs =
     Some (map (\<lambda>r. (locals ! r)
                 [0 := locals ! top_neighbor r nprocs ! (length (locals ! top_neighbor r nprocs) - 2),
                  length (locals ! r) - 1 := locals ! bottom_neighbor r nprocs ! 1])
               [0..<nprocs])"
  unfolding exchange_halo_all_def Let_def
proof (rule those_map_Some)
  fix r
  assume "r \<in> set [0..<nprocs]"
  then have r: "r < nprocs" by simp
  show "exchange_halo
          (concat (map (\<lambda>rank. halo_sends (locals ! rank) rank nprocs) [0..<nprocs]))
          (locals ! r) r nprocs
        = Some ((locals ! r)
                 [0 := locals ! top_neighbor r nprocs ! (length (locals ! top_neighbor r nprocs) - 2),
                  length (locals ! r) - 1 := locals ! bottom_neighbor r nprocs ! 1])"
    using receive_from_top [OF r, of locals] receive_from_bottom [OF r, of locals]
    by (simp add: exchange_halo_def)
qed

section \<open>The 1-D kernel on a patch in step with the global grid\<close>

lemma stencil_offsets_range:
  "(di, dj) \<in> set stencil_offsets \<Longrightarrow> (di = -1 \<or> di = 0 \<or> di = 1) \<and> (dj = -1 \<or> dj = 0 \<or> dj = 1)"
  by (auto simp add: stencil_offsets_eq)

lemma row_count_pos: "0 < parts \<Longrightarrow> parts \<le> n \<Longrightarrow> 0 < row_count n parts r"
  by (simp add: row_count_def div_greater_zero_iff)

lemma reference_step_shape: "shape (reference_step ny nx G) ny nx"
  by (simp add: reference_step_def shape_def list_all_length)

lemma interior_rows_nth:
  "i < length g - 2 \<Longrightarrow> interior_rows g ! i = g ! (i + 1)"
  by (simp add: interior_rows_def)

lemma owns_1d_row:
  assumes "shape G ny nx" and "owns_1d ny nprocs G locals" and "r < nprocs"
      and "1 \<le> k" and "k \<le> row_count ny nprocs r"
  shows "locals ! r ! k = G ! (start_of ny nprocs r + k - 1)"
proof -
  have l: "length (locals ! r) = row_count ny nprocs r + 2"
    and i: "interior_rows (locals ! r) = strip_of ny nprocs G r"
    using assms(2,3) by (simp_all add: owns_1d_def)
  have "k - 1 < length (locals ! r) - 2"
    using assms(4,5) l by simp
  from interior_rows_nth [OF this] have "locals ! r ! k = strip_of ny nprocs G r ! (k - 1)"
    using assms(4) i by simp
  also have "\<dots> = G ! (start_of ny nprocs r + (k - 1))"
    using assms(4,5) by (intro strip_of_nth [OF assms(1,3)]) simp
  finally show ?thesis
    using assms(4) by simp
qed

lemma kernel_1d_strip:
  assumes "shape G ny nx" and "r < nprocs" and "padded_1d ny nprocs G lg r"
  shows "compute_next_generation lg nx = strip_of ny nprocs (reference_step ny nx G) r"
proof -
  define rs where "rs = start_of ny nprocs r"
  define rc where "rc = row_count ny nprocs r"
  have len: "length lg = rc + 2"
    and rows: "\<And>k. k \<le> rc + 1 \<Longrightarrow> lg ! k = G ! nat ((int rs + int k - 1) mod int ny)"
    using assms(3) by (simp_all add: padded_1d_def rs_def rc_def)
  have fit: "rs + rc \<le> ny"
    unfolding rs_def rc_def by (rule start_of_end_le [OF assms(2)])
  have cell: "update_cell (lg ! (i + 1) ! j) (sum_list (map (cell_at lg) (reads_1d nx (i + 1) j)))
            = update_cell (G ! (rs + i) ! j)
                (sum_list (map (cell_at G) (torus_reads ny nx (rs + i) j)))"
    if i: "i < rc" for i j
  proof -
    have centre: "lg ! (i + 1) = G ! (rs + i)"
    proof -
      have "int rs + int (i + 1) - 1 = int (rs + i)"
        by simp
      moreover have "int (rs + i) mod int ny = int (rs + i)"
        using i fit by simp
      ultimately have "nat ((int rs + int (i + 1) - 1) mod int ny) = rs + i"
        by (simp only: nat_int)
      moreover have "lg ! (i + 1) = G ! nat ((int rs + int (i + 1) - 1) mod int ny)"
        using i by (intro rows) simp
      ultimately show ?thesis
        by simp
    qed
    have "map (cell_at lg) (reads_1d nx (i + 1) j) = map (cell_at G) (torus_reads ny nx (rs + i) j)"
      unfolding reads_1d_def torus_reads_def map_map
    proof (rule map_cong [OF refl])
      fix off
      assume mem: "off \<in> set stencil_offsets"
      obtain di dj where off: "off = (di, dj)"
        by (cases off)
      have d: "di = -1 \<or> di = 0 \<or> di = 1"
        using stencil_offsets_range mem off by blast
      define k where "k = nat (int (i + 1) + di)"
      have k: "int k = int i + 1 + di" "k \<le> rc + 1"
        using d i by (auto simp add: k_def)
      have "lg ! k = G ! nat ((int rs + int k - 1) mod int ny)"
        by (rule rows [OF k(2)])
      also have "int rs + int k - 1 = int (rs + i) + di"
        using k(1) by simp
      finally show "(cell_at lg \<circ> (\<lambda>(di, dj). (nat (int (i + 1) + di), nat ((int j + dj) mod int nx)))) off
                  = (cell_at G \<circ> (\<lambda>(dy, dx). (nat ((int (rs + i) + dy) mod int ny),
                                              nat ((int j + dx) mod int nx)))) off"
        by (simp add: off cell_at_def k_def)
    qed
    then show ?thesis
      using centre by simp
  qed
  have "strip_of ny nprocs (reference_step ny nx G) r
        = map (\<lambda>y. map (\<lambda>x. update_cell (G ! y ! x)
                               (sum_list (map (cell_at G) (torus_reads ny nx y x))))
                    [0..<nx]) [rs..<rs + rc]"
    using fit by (simp add: strip_of_def reference_step_def rs_def rc_def take_map drop_map
        take_upt drop_upt)
  also have "\<dots> = map (\<lambda>i. map (\<lambda>x. update_cell (G ! (rs + i) ! x)
                               (sum_list (map (cell_at G) (torus_reads ny nx (rs + i) x))))
                    [0..<nx]) [0..<rc]"
    by (simp add: map_add_upt [symmetric] map_map comp_def add.commute del: map_add_upt)
  also have "\<dots> = map (\<lambda>i. map (\<lambda>j. update_cell (lg ! (i + 1) ! j)
                               (sum_list (map (cell_at lg) (reads_1d nx (i + 1) j))))
                    [0..<nx]) [0..<rc]"
  proof (rule map_cong [OF refl])
    fix i
    assume "i \<in> set [0..<rc]"
    then have "i < rc" by simp
    from cell [OF this] show "map (\<lambda>x. update_cell (G ! (rs + i) ! x)
                               (sum_list (map (cell_at G) (torus_reads ny nx (rs + i) x)))) [0..<nx]
           = map (\<lambda>j. update_cell (lg ! (i + 1) ! j)
                               (sum_list (map (cell_at lg) (reads_1d nx (i + 1) j)))) [0..<nx]"
      by simp
  qed
  also have "\<dots> = compute_next_generation lg nx"
  proof -
    have "length lg - 1 = Suc rc"
      using len by simp
    then have "[1..<length lg - 1] = map Suc [0..<rc]"
      by (simp only: map_Suc_upt One_nat_def)
    then show ?thesis
      by (simp add: compute_next_generation_def map_map comp_def)
  qed
  finally show ?thesis by simp
qed

section \<open>The 1-D run against the sequential reference\<close>

lemma halo_row_above:
  assumes "r < nprocs" and "nprocs \<le> ny"
  shows "nat ((int (start_of ny nprocs r) - 1) mod int ny)
         = start_of ny nprocs (top_neighbor r nprocs) + row_count ny nprocs (top_neighbor r nprocs) - 1"
proof (cases "r = 0")
  case True
  have "0 < nprocs" using assms(1) by simp
  then have "start_of ny nprocs (nprocs - 1) + row_count ny nprocs (nprocs - 1) = ny"
    using start_of_Suc [of ny nprocs "nprocs - 1"] by (simp add: start_of_total)
  moreover have "(- 1) mod int ny = int ny - 1"
    using assms by (simp add: zmod_minus1)
  ultimately show ?thesis
    using True assms(1) by (simp add: top_neighbor_eq)
next
  case False
  then obtain r' where r': "r = Suc r'"
    by (cases r) simp_all
  have pos: "0 < row_count ny nprocs r'"
    using assms by (intro row_count_pos) simp_all
  have "start_of ny nprocs r + row_count ny nprocs r \<le> ny"
    by (rule start_of_end_le [OF assms(1)])
  then have "(int (start_of ny nprocs r) - 1) mod int ny = int (start_of ny nprocs r) - 1"
    using pos by (simp add: r' start_of_Suc)
  then show ?thesis
    using pos assms(1) by (simp add: r' top_neighbor_eq start_of_Suc)
qed

lemma halo_row_below:
  assumes "r < nprocs" and "nprocs \<le> ny"
  shows "nat ((int (start_of ny nprocs r) + int (row_count ny nprocs r)) mod int ny)
         = start_of ny nprocs (bottom_neighbor r nprocs)"
proof (cases "r + 1 = nprocs")
  case True
  then have "start_of ny nprocs r + row_count ny nprocs r = ny"
    using start_of_Suc [of ny nprocs r] assms(1) by (simp add: start_of_total)
  then have "int (start_of ny nprocs r) + int (row_count ny nprocs r) = int ny"
    by simp
  then show ?thesis
    using True assms(1) by (simp add: bottom_neighbor_eq)
next
  case False
  then have next_rank: "Suc r < nprocs"
    using assms(1) by simp
  have "0 < row_count ny nprocs (Suc r)"
    using assms by (intro row_count_pos) simp_all
  then have "start_of ny nprocs (Suc r) < ny"
    using start_of_end_le [OF next_rank, of ny] by simp
  then have "int (start_of ny nprocs (Suc r)) mod int ny = int (start_of ny nprocs (Suc r))"
    by simp
  then have "nat ((int (start_of ny nprocs r) + int (row_count ny nprocs r)) mod int ny)
             = start_of ny nprocs (Suc r)"
    by (simp add: start_of_Suc)
  then show ?thesis
    using False assms(1) by (simp add: bottom_neighbor_eq)
qed

lemma exchange_keeps_owned:
  assumes "owns_1d ny nprocs G locals"
      and "exchange_halo_all locals nprocs = Some locals'"
  shows "owns_1d ny nprocs G locals'"
  unfolding owns_1d_def
proof (intro conjI allI impI)
  show "length locals' = nprocs"
    using assms(2) by (auto simp add: exchange_halo_all_eq)
next
  fix r
  assume r: "r < nprocs"
  define a where "a = locals ! top_neighbor r nprocs ! (length (locals ! top_neighbor r nprocs) - 2)"
  define b where "b = locals ! bottom_neighbor r nprocs ! 1"
  have n: "locals' ! r = (locals ! r)[0 := a, length (locals ! r) - 1 := b]"
    using assms(2) r by (auto simp add: exchange_halo_all_eq a_def b_def)
  have "interior_rows (locals' ! r) = interior_rows (locals ! r)"
    unfolding n by (rule interior_rows_halo_update)
  moreover have "length (locals' ! r) = length (locals ! r)"
    unfolding n by simp
  ultimately show "length (locals' ! r) = row_count ny nprocs r + 2"
    and "interior_rows (locals' ! r) = strip_of ny nprocs G r"
    using assms(1) r by (simp_all add: owns_1d_def)
qed

lemma exchange_syncs:
  assumes "shape G ny nx" and "owns_1d ny nprocs G locals"
      and "0 < nprocs" and "nprocs \<le> ny"
      and "exchange_halo_all locals nprocs = Some locals'"
  shows "synced_1d ny nprocs G locals'"
  unfolding synced_1d_def
proof (intro conjI allI impI)
  show "length locals' = nprocs"
    using assms(5) by (auto simp add: exchange_halo_all_eq)
next
  fix r
  assume r: "r < nprocs"
  define t where "t = top_neighbor r nprocs"
  define b where "b = bottom_neighbor r nprocs"
  define rc where "rc = row_count ny nprocs r"
  define rs where "rs = start_of ny nprocs r"
  have t: "t < nprocs" and b: "b < nprocs"
    using assms(3) by (simp_all add: t_def b_def top_neighbor_less bottom_neighbor_less)
  have len: "length (locals ! r) = rc + 2"
    using assms(2) r by (simp add: owns_1d_def rc_def)
  have lent: "length (locals ! t) = row_count ny nprocs t + 2"
    using assms(2) t by (simp add: owns_1d_def)
  have post: "0 < row_count ny nprocs t" and posb: "0 < row_count ny nprocs b" and posr: "0 < rc"
    unfolding rc_def using assms(3,4) by (simp_all add: row_count_pos)
  have new: "locals' ! r = (locals ! r)[0 := locals ! t ! row_count ny nprocs t, rc + 1 := locals ! b ! 1]"
    using assms(5) r len lent by (auto simp add: exchange_halo_all_eq t_def b_def)
  have top_row: "locals ! t ! row_count ny nprocs t = G ! nat ((int rs - 1) mod int ny)"
  proof -
    have "locals ! t ! row_count ny nprocs t
          = G ! (start_of ny nprocs t + row_count ny nprocs t - 1)"
      using post by (intro owns_1d_row [OF assms(1,2) t]) simp_all
    then show ?thesis
      using halo_row_above [OF r assms(4)] by (simp add: t_def rs_def)
  qed
  have bottom_row: "locals ! b ! 1 = G ! nat ((int rs + int rc) mod int ny)"
  proof -
    have "locals ! b ! 1 = G ! (start_of ny nprocs b + 1 - 1)"
      using posb by (intro owns_1d_row [OF assms(1,2) b]) simp_all
    then show ?thesis
      using halo_row_below [OF r assms(4)] by (simp add: b_def rs_def rc_def)
  qed
  have inner: "locals ! r ! k = G ! nat ((int rs + int k - 1) mod int ny)"
    if "1 \<le> k" and "k \<le> rc" for k
  proof -
    have "rs + rc \<le> ny"
      unfolding rs_def rc_def by (rule start_of_end_le [OF r])
    then have "int (rs + k - 1) mod int ny = int (rs + k - 1)"
      using that by simp
    moreover have "int rs + int k - 1 = int (rs + k - 1)"
      using that by simp
    ultimately have "nat ((int rs + int k - 1) mod int ny) = rs + k - 1"
      by (simp only: nat_int)
    moreover have "locals ! r ! k = G ! (start_of ny nprocs r + k - 1)"
      using that by (intro owns_1d_row [OF assms(1,2) r]) (simp_all add: rc_def)
    ultimately show ?thesis
      by (simp add: rs_def)
  qed
  show "padded_1d ny nprocs G (locals' ! r) r"
    unfolding padded_1d_def
  proof (intro conjI allI impI)
    show "length (locals' ! r) = row_count ny nprocs r + 2"
      using len by (simp add: new rc_def)
  next
    fix k
    assume "k \<le> row_count ny nprocs r + 1"
    then consider "k = 0" | "k = rc + 1" | "1 \<le> k" "k \<le> rc"
      unfolding rc_def by arith
    then show "locals' ! r ! k = G ! nat ((int (start_of ny nprocs r) + int k - 1) mod int ny)"
    proof cases
      case 1
      then show ?thesis
        using len top_row by (simp add: new rs_def)
    next
      case 2
      have "int rs + int (rc + 1) - 1 = int rs + int rc"
        by simp
      then show ?thesis
        using 2 len bottom_row by (simp add: new rs_def)
    next
      case 3
      then show ?thesis
        using len inner [OF 3] by (simp add: new rs_def)
    qed
  qed
qed

lemma kernel_step_owned:
  assumes "shape G ny nx" and "synced_1d ny nprocs G locals"
  shows "owns_1d ny nprocs (reference_step ny nx G)
           (map (\<lambda>local_grid. set_rows local_grid 1 (compute_next_generation local_grid nx)) locals)"
  unfolding owns_1d_def
proof (intro conjI allI impI)
  show "length (map (\<lambda>local_grid. set_rows local_grid 1 (compute_next_generation local_grid nx)) locals)
        = nprocs"
    using assms(2) by (simp add: synced_1d_def)
next
  fix r
  assume r: "r < nprocs"
  have p: "padded_1d ny nprocs G (locals ! r) r" and l: "r < length locals"
    using assms(2) r by (simp_all add: synced_1d_def)
  have k: "compute_next_generation (locals ! r) nx = strip_of ny nprocs (reference_step ny nx G) r"
    by (rule kernel_1d_strip [OF assms(1) r p])
  have kl: "length (strip_of ny nprocs (reference_step ny nx G) r) = row_count ny nprocs r"
    by (rule strip_of_length [OF reference_step_shape r])
  have "length (locals ! r) = length (strip_of ny nprocs (reference_step ny nx G) r) + 2"
    using p kl by (simp add: padded_1d_def)
  from set_rows_interior [OF this]
  have "set_rows (locals ! r) 1 (compute_next_generation (locals ! r) nx)
        = locals ! r ! 0 # strip_of ny nprocs (reference_step ny nx G) r
            @ [locals ! r ! (row_count ny nprocs r + 1)]"
    by (simp add: k kl)
  then show "length (map (\<lambda>local_grid. set_rows local_grid 1 (compute_next_generation local_grid nx))
                      locals ! r) = row_count ny nprocs r + 2"
    and "interior_rows (map (\<lambda>local_grid. set_rows local_grid 1 (compute_next_generation local_grid nx))
                        locals ! r) = strip_of ny nprocs (reference_step ny nx G) r"
    using l kl by simp_all
qed

lemma reference_steps_shape:
  "shape G ny nx \<Longrightarrow> shape ((reference_step ny nx ^^ k) G) ny nx"
  by (cases k) (simp_all add: reference_step_shape)

lemma loop_body_result:
  assumes "shape G ny nx" and "0 < nprocs" and "nprocs \<le> ny"
      and "synced_1d ny nprocs G locals" and "ny * nx < 2 ^ 31"
  shows "\<exists>locals'.
           loop_body nprocs ny nx steps save_interval step (locals, snapshots)
             = Inr (locals',
                     snapshots @ (if 0 < save_interval \<and> (step + 1) mod save_interval = 0
                                  then [(step + 1, reference_step ny nx G)] else []))
           \<and> owns_1d ny nprocs (reference_step ny nx G) locals'
           \<and> (int step < int steps - 1 \<longrightarrow> synced_1d ny nprocs (reference_step ny nx G) locals')"
proof -
  define G' where "G' = reference_step ny nx G"
  define updated where
    "updated = map (\<lambda>local_grid. set_rows local_grid 1 (compute_next_generation local_grid nx)) locals"
  have sh: "shape G' ny nx"
    unfolding G'_def by (rule reference_step_shape)
  have own: "owns_1d ny nprocs G' updated"
    unfolding G'_def updated_def by (rule kernel_step_owned [OF assms(1,4)])
  show ?thesis
  proof (cases "int step < int steps - 1")
    case True
    obtain exchanged where ex: "exchange_halo_all updated nprocs = Some exchanged"
      by (simp add: exchange_halo_all_eq)
    have own': "owns_1d ny nprocs G' exchanged"
      by (rule exchange_keeps_owned [OF own ex])
    have syn: "synced_1d ny nprocs G' exchanged"
      by (rule exchange_syncs [OF sh own assms(2,3) ex])
    have "gather_grid exchanged nprocs ny nx = Inr G'"
      by (rule gather_grid_owned [OF sh own' assms(2,5)])
    then have "loop_body nprocs ny nx steps save_interval step (locals, snapshots)
             = Inr (exchanged,
                     snapshots @ (if 0 < save_interval \<and> (step + 1) mod save_interval = 0
                                  then [(step + 1, G')] else []))"
      unfolding loop_body_def prod.case Let_def updated_def [symmetric]
      using True ex by simp
    then show ?thesis
      using own' syn unfolding G'_def by blast
  next
    case False
    have "gather_grid updated nprocs ny nx = Inr G'"
      by (rule gather_grid_owned [OF sh own assms(2,5)])
    then have "loop_body nprocs ny nx steps save_interval step (locals, snapshots)
             = Inr (updated,
                     snapshots @ (if 0 < save_interval \<and> (step + 1) mod save_interval = 0
                                  then [(step + 1, G')] else []))"
      unfolding loop_body_def prod.case Let_def updated_def [symmetric]
      using False by simp
    then show ?thesis
      using own False unfolding G'_def by blast
  qed
qed

lemma snapshot_steps_done: "snapshot_steps save_interval steps steps = []"
  by (simp add: snapshot_steps_def)

lemma snapshot_steps_next:
  assumes "a < steps"
  shows "snapshot_steps save_interval a steps
         = (if 0 < save_interval \<and> (a + 1) mod save_interval = 0 then [a + 1] else [])
           @ snapshot_steps save_interval (Suc a) steps"
proof -
  have "[a + 1..<steps + 1] = (a + 1) # [Suc a + 1..<steps + 1]"
    using assms by (simp add: upt_conv_Cons)
  then show ?thesis
    by (simp add: snapshot_steps_def)
qed

lemma main_loop_result:
  assumes "shape G ny nx" and "0 < nprocs" and "nprocs \<le> ny" and "a \<le> steps"
      and "owns_1d ny nprocs ((reference_step ny nx ^^ a) G) locals"
      and "a < steps \<longrightarrow> synced_1d ny nprocs ((reference_step ny nx ^^ a) G) locals"
      and "ny * nx < 2 ^ 31"
  shows "\<exists>locals'.
           main_loop nprocs ny nx steps save_interval [a..<steps] (locals, snapshots)
             = Inr (locals',
                     snapshots @ map (\<lambda>k. (k, (reference_step ny nx ^^ k) G))
                                     (snapshot_steps save_interval a steps))
           \<and> owns_1d ny nprocs ((reference_step ny nx ^^ steps) G) locals'"
  using assms(4,5,6)
proof (induction "steps - a" arbitrary: a locals snapshots)
  case 0
  then have "a = steps" by simp
  then show ?case
    using "0.prems"(2) by (simp add: snapshot_steps_done)
next
  case (Suc n)
  then have lt: "a < steps" by simp
  define Ga where "Ga = (reference_step ny nx ^^ a) G"
  have sh: "shape Ga ny nx"
    unfolding Ga_def by (rule reference_steps_shape [OF assms(1)])
  have syn: "synced_1d ny nprocs Ga locals"
    using Suc.prems(3) lt by (simp add: Ga_def)
  have next_grid: "reference_step ny nx Ga = (reference_step ny nx ^^ Suc a) G"
    by (simp add: Ga_def)
  from loop_body_result [OF sh assms(2,3) syn assms(7), of steps save_interval a snapshots]
  obtain locals1 where
    body: "loop_body nprocs ny nx steps save_interval a (locals, snapshots)
             = Inr (locals1,
                     snapshots @ (if 0 < save_interval \<and> (a + 1) mod save_interval = 0
                                  then [(a + 1, reference_step ny nx Ga)] else []))"
    and own1: "owns_1d ny nprocs (reference_step ny nx Ga) locals1"
    and syn1: "int a < int steps - 1 \<longrightarrow> synced_1d ny nprocs (reference_step ny nx Ga) locals1"
    by blast
  have "n = steps - Suc a"
    using Suc.hyps(2) by simp
  moreover have "Suc a \<le> steps"
    using lt by simp
  moreover have "owns_1d ny nprocs ((reference_step ny nx ^^ Suc a) G) locals1"
    using own1 by (simp only: next_grid)
  moreover have "Suc a < steps \<longrightarrow> synced_1d ny nprocs ((reference_step ny nx ^^ Suc a) G) locals1"
    using syn1 by (simp only: next_grid) auto
  ultimately obtain locals' where
    rest: "main_loop nprocs ny nx steps save_interval [Suc a..<steps]
             (locals1, snapshots @ (if 0 < save_interval \<and> (a + 1) mod save_interval = 0
                                    then [(a + 1, reference_step ny nx Ga)] else []))
           = Inr (locals',
                   (snapshots @ (if 0 < save_interval \<and> (a + 1) mod save_interval = 0
                                 then [(a + 1, reference_step ny nx Ga)] else []))
                   @ map (\<lambda>k. (k, (reference_step ny nx ^^ k) G))
                         (snapshot_steps save_interval (Suc a) steps))"
    and own': "owns_1d ny nprocs ((reference_step ny nx ^^ steps) G) locals'"
    using Suc.hyps(1) [of "Suc a" locals1] by blast
  have "[a..<steps] = a # [Suc a..<steps]"
    using lt by (simp add: upt_conv_Cons)
  then have "main_loop nprocs ny nx steps save_interval [a..<steps] (locals, snapshots)
           = Inr (locals',
                   snapshots @ map (\<lambda>k. (k, (reference_step ny nx ^^ k) G))
                                   (snapshot_steps save_interval a steps))"
    using body rest by (simp add: snapshot_steps_next [OF lt] next_grid)
  then show ?case
    using own' by blast
qed

lemma main_1d_result:
  assumes "shape G ny nx" and "0 < nprocs" and "nprocs \<le> ny"
      and "ny < 2 ^ 31" and "ny * nx < 2 ^ 31"
  shows "main_1d nprocs ny nx steps save_interval G
         = Inr ((reference_step ny nx ^^ steps) G,
                 (if 0 < save_interval then [(0, G)] else [])
                 @ map (\<lambda>k. (k, (reference_step ny nx ^^ k) G)) (snapshot_steps save_interval 0 steps)
                 @ [(steps, (reference_step ny nx ^^ steps) G)])"
proof -
  have "1 \<le> ny"
    using assms(2,3) by simp
  then have "nx \<le> ny * nx"
    by (cases ny) simp_all
  then have "nx < 2 ^ 31"
    using assms(5) by (rule le_less_trans)
  then have dims: "\<not> (2 ^ 31 \<le> int ny \<or> 2 ^ 31 \<le> int nx)"
    using assms(4) by simp
  have sc: "scatter_1d nprocs ny nx G = Inr (padded_strips nprocs ny nx G)"
    by (rule scatter_1d_eq [OF assms(1,5)])
  obtain local_grids where
    ex: "exchange_halo_all (padded_strips nprocs ny nx G) nprocs = Some local_grids"
    by (simp add: exchange_halo_all_eq)
  have own0: "owns_1d ny nprocs G (padded_strips nprocs ny nx G)"
    by (rule padded_strips_owns [OF assms(1)])
  have own: "owns_1d ny nprocs G local_grids"
    by (rule exchange_keeps_owned [OF own0 ex])
  have syn: "synced_1d ny nprocs G local_grids"
    by (rule exchange_syncs [OF assms(1) own0 assms(2,3) ex])
  have g0: "gather_grid local_grids nprocs ny nx = Inr G"
    by (rule gather_grid_owned [OF assms(1) own assms(2,5)])
  define initial where "initial = (if 0 < save_interval then [(0::nat, G)] else [])"
  have init: "(if 0 < save_interval
               then (case gather_grid local_grids nprocs ny nx of
                       Inl e \<Rightarrow> Inl e
                     | Inr initial_grid \<Rightarrow> Inr [(0, initial_grid)])
               else Inr []) = Inr initial"
    by (simp add: g0 initial_def)
  have "owns_1d ny nprocs ((reference_step ny nx ^^ 0) G) local_grids"
       "0 < steps \<longrightarrow> synced_1d ny nprocs ((reference_step ny nx ^^ 0) G) local_grids"
    using own syn by simp_all
  from main_loop_result [OF assms(1,2,3) _ this assms(5), of save_interval initial]
  obtain locals' where
    loop: "main_loop nprocs ny nx steps save_interval [0..<steps] (local_grids, initial)
           = Inr (locals',
                   initial @ map (\<lambda>k. (k, (reference_step ny nx ^^ k) G))
                                 (snapshot_steps save_interval 0 steps))"
    and own': "owns_1d ny nprocs ((reference_step ny nx ^^ steps) G) locals'"
    by blast
  have fin: "gather_grid locals' nprocs ny nx = Inr ((reference_step ny nx ^^ steps) G)"
    by (rule gather_grid_owned [OF reference_steps_shape [OF assms(1)] own' assms(2,5)])
  show ?thesis
    unfolding main_1d_def
    by (simp only: dims if_False sc ex init loop fin sum.case option.case prod.case)
       (simp add: initial_def)
qed

text \<open>
  The bound on the number of cells is needed: a gather that returns a grid, and so a 1-D
  run that returns one, has dimensions whose product is below \<open>2 ^ 31\<close>.
\<close>

lemma wrap32_less: "wrap32 i < 2 ^ 31"
  by (simp add: wrap32_def)

lemma write_at_length:
  "off + length data \<le> length buf \<Longrightarrow> length (write_at buf off data) = length buf"
  by (simp add: write_at_def)

lemma fold_write_at_length:
  assumes "\<forall>r \<in> set rs. off r + length (data r) \<le> length buf"
  shows "length (fold (\<lambda>r b. write_at b (off r) (data r)) rs buf) = length buf"
  using assms
proof (induction rs arbitrary: buf)
  case Nil
  show ?case by simp
next
  case (Cons r rs)
  have l: "length (write_at buf (off r) (data r)) = length buf"
    using Cons.prems by (intro write_at_length) simp
  have "length (fold (\<lambda>r b. write_at b (off r) (data r)) rs (write_at buf (off r) (data r)))
        = length (write_at buf (off r) (data r))"
    using Cons.prems by (intro Cons.IH) (simp add: l)
  then show ?case
    by (simp add: l)
qed

lemma gatherv_length:
  assumes "gatherv sendbufs recvbuf recv_counts displacements = Inr out"
  shows "length out = length recvbuf"
proof -
  have ok: "list_all (\<lambda>r. 0 \<le> recv_counts ! r \<and> 0 \<le> displacements ! r
                        \<and> displacements ! r + recv_counts ! r \<le> int (length recvbuf)
                        \<and> int (length (sendbufs ! r)) \<le> recv_counts ! r)
                  [0..<length sendbufs]"
    and out: "out = fold (\<lambda>r buf. write_at buf (nat (displacements ! r)) (sendbufs ! r))
                      [0..<length sendbufs] recvbuf"
    using assms by (simp_all add: gatherv_def split: if_splits)
  have "\<forall>r \<in> set [0..<length sendbufs].
          nat (displacements ! r) + length (sendbufs ! r) \<le> length recvbuf"
    using ok unfolding list_all_iff by (intro ballI) force
  then show ?thesis
    unfolding out by (rule fold_write_at_length)
qed

lemma gather_grid_needs_int32:
  assumes "gather_grid locals nprocs ny nx = Inr g"
  shows "ny * nx < 2 ^ 31"
proof -
  define w where "w = wrap32 (int ny * int nx)"
  obtain recv_counts displacements where
    d: "distribution ny nx nprocs = (recv_counts, displacements)"
    by (cases "distribution ny nx nprocs")
  have g: "(case np_zeros w of
              Inl e \<Rightarrow> Inl e
            | Inr global_flat \<Rightarrow>
                (case gatherv (map (\<lambda>local_grid. flatten (interior_rows local_grid)) locals)
                              global_flat recv_counts displacements of
                   Inl e \<Rightarrow> Inl e
                 | Inr gathered \<Rightarrow> np_reshape ny nx gathered)) = Inr g"
    using assms by (simp add: gather_grid_def d w_def)
  have nonneg: "0 \<le> w"
    using g by (cases "w < 0") (simp_all add: np_zeros_def)
  then have z: "np_zeros w = Inr (replicate (nat w) 0)"
    by (simp add: np_zeros_def)
  obtain gathered where
    gv: "gatherv (map (\<lambda>local_grid. flatten (interior_rows local_grid)) locals)
           (replicate (nat w) 0) recv_counts displacements = Inr gathered"
    and rs: "np_reshape ny nx gathered = Inr g"
    using g unfolding z by (auto split: sum.splits)
  have "length gathered = nat w"
    using gatherv_length [OF gv] by simp
  moreover have "length gathered = ny * nx"
    using rs by (simp add: np_reshape_def split: if_splits)
  ultimately have "int (ny * nx) = w"
    using nonneg by simp
  then have "int (ny * nx) < 2 ^ 31"
    using wrap32_less [of "int ny * int nx"] by (simp only: w_def)
  then show ?thesis
    by (simp only: of_nat_less_numeral_power_cancel_iff)
qed

lemma main_1d_needs_int32:
  assumes "main_1d nprocs ny nx steps save_interval G = Inr res"
  shows "ny < 2 ^ 31 \<and> nx < 2 ^ 31 \<and> ny * nx < 2 ^ 31"
proof -
  have dims: "ny < 2 ^ 31" "nx < 2 ^ 31"
    using assms by (simp_all add: main_1d_def split: if_splits)
  have "\<exists>locals g. gather_grid locals nprocs ny nx = Inr g"
    using assms
    by (simp add: main_1d_def split: if_splits sum.splits option.splits prod.splits) blast+
  then show ?thesis
    using dims gather_grid_needs_int32 by blast
qed

text \<open>
  A grid of \<open>65536 \<times> 65536\<close> cells on two processes: the cell counts of the two strips
  wrap to \<open>- 2 ^ 31\<close>, the receive buffer of the scatter gets a negative size, and the
  run stops with a \<open>ValueError\<close>.
\<close>

lemma two_ranks: "[0..<2] = [0, Suc 0]"
  by (simp add: upt_rec)

lemma distribution_overflow:
  "distribution 65536 65536 2 = ([- 2147483648, - 2147483648], [0, - 2147483648])"
  by (simp add: distribution_wraps row_count_def start_of_def wrap32_def two_ranks)

lemma scatter_1d_overflow: "scatter_1d 2 65536 65536 G = Inl ValueError"
  by (simp add: scatter_1d_def distribution_overflow two_ranks row_count_def wrap32_def
      np_zeros_def)

lemma main_1d_overflow: "main_1d 2 65536 65536 steps save_interval G = Inl ValueError"
  by (simp add: main_1d_def scatter_1d_overflow)

section \<open>Rectangular slices\<close>

lemma shape_row: "shape g r c \<Longrightarrow> a < r \<Longrightarrow> length (g ! a) = c"
  by (rule shape_nth)

lemma ncols_shape: "shape g r c \<Longrightarrow> 0 < r \<Longrightarrow> ncols g = c"
  by (cases g) (simp_all add: shape_def ncols_def)

lemma grid_eqI:
  assumes "shape g r c" and "shape h r c"
      and "\<And>a b. a < r \<Longrightarrow> b < c \<Longrightarrow> g ! a ! b = h ! a ! b"
  shows "g = h"
proof (rule nth_equalityI)
  show "length g = length h"
    using assms(1,2) by (simp add: shape_def)
next
  fix a
  assume "a < length g"
  then have a: "a < r"
    using assms(1) by (simp add: shape_def)
  show "g ! a = h ! a"
  proof (rule nth_equalityI)
    show "length (g ! a) = length (h ! a)"
      using shape_nth [OF assms(1) a] shape_nth [OF assms(2) a] by simp
  next
    fix b
    assume "b < length (g ! a)"
    then have "b < c"
      using shape_nth [OF assms(1) a] by simp
    then show "g ! a ! b = h ! a ! b"
      by (rule assms(3) [OF a])
  qed
qed

lemma zeros_shape: "shape (zeros r c) r c"
  by (simp add: zeros_def shape_def list_all_length)

lemma block_shape:
  assumes "shape g r c" and "i0 + br \<le> r" and "j0 + bc \<le> c"
  shows "shape (block g i0 br j0 bc) br bc"
proof (rule shapeI)
  show "length (block g i0 br j0 bc) = br"
    using assms(1,2) by (simp add: block_def shape_def)
next
  fix a
  assume a: "a < br"
  then have "i0 + a < r"
    using assms(2) by simp
  from shape_nth [OF assms(1) this] show "length (block g i0 br j0 bc ! a) = bc"
    using a assms by (simp add: block_def shape_def)
qed

lemma block_cell:
  assumes "shape g r c" and "i0 + br \<le> r" and "j0 + bc \<le> c" and "a < br" and "b < bc"
  shows "block g i0 br j0 bc ! a ! b = g ! (i0 + a) ! (j0 + b)"
proof -
  have "i0 + a < r"
    using assms(2,4) by simp
  from shape_nth [OF assms(1) this] show ?thesis
    using assms by (simp add: block_def shape_def)
qed

lemma nth_append3:
  assumes "length xs = n"
  shows "(xs @ ys @ zs) ! b
         = (if b < n then xs ! b
            else if b < n + length ys then ys ! (b - n) else zs ! (b - n - length ys))"
proof -
  consider "b < n" | "n \<le> b" "b < n + length ys" | "n + length ys \<le> b"
    by arith
  then show ?thesis
  proof cases
    case 1
    then show ?thesis
      using assms by (simp add: nth_append)
  next
    case 2
    then have "b - n < length ys"
      by arith
    then show ?thesis
      using 2 assms by (simp add: nth_append)
  next
    case 3
    then have "\<not> b - n < length ys"
      by arith
    then show ?thesis
      using 3 assms by (simp add: nth_append)
  qed
qed

lemma row_patch_length:
  "j0 + length vs \<le> length row \<Longrightarrow> length (take j0 row @ vs @ drop (j0 + length vs) row) = length row"
  by simp

lemma row_patch_nth:
  assumes "j0 + length vs \<le> length row" and "b < length row"
  shows "(take j0 row @ vs @ drop (j0 + length vs) row) ! b
         = (if j0 \<le> b \<and> b < j0 + length vs then vs ! (b - j0) else row ! b)"
proof -
  have l: "length (take j0 row) = j0"
    using assms(1) by simp
  consider "b < j0" | "j0 \<le> b" "b < j0 + length vs" | "j0 + length vs \<le> b"
    by arith
  then show ?thesis
  proof cases
    case 1
    then show ?thesis
      by (simp add: nth_append3 [OF l])
  next
    case 2
    then show ?thesis
      by (simp add: nth_append3 [OF l])
  next
    case 3
    then have "j0 + length vs + (b - j0 - length vs) = b"
      by arith
    then show ?thesis
      using 3 assms(2) by (simp add: nth_append3 [OF l])
  qed
qed

lemma set_block_length:
  "i0 + length blk \<le> length g \<Longrightarrow> length (set_block g i0 j0 blk) = length g"
  by (simp add: set_block_def)

lemma set_block_row:
  assumes "i0 + length blk \<le> length g" and "a < length g"
  shows "set_block g i0 j0 blk ! a
         = (if i0 \<le> a \<and> a < i0 + length blk
            then take j0 (g ! a) @ blk ! (a - i0) @ drop (j0 + length (blk ! (a - i0))) (g ! a)
            else g ! a)"
proof -
  define mid where
    "mid = map (\<lambda>(row, vs). take j0 row @ vs @ drop (j0 + length vs) row)
               (zip (take (length blk) (drop i0 g)) blk)"
  have l: "length (take i0 g) = i0"
    using assms(1) by simp
  have lm: "length mid = length blk"
    using assms(1) by (simp add: mid_def)
  have sb: "set_block g i0 j0 blk = take i0 g @ mid @ drop (i0 + length blk) g"
    by (simp add: set_block_def mid_def)
  consider "a < i0" | "i0 \<le> a" "a < i0 + length blk" | "i0 + length blk \<le> a"
    by arith
  then show ?thesis
  proof cases
    case 1
    then show ?thesis
      by (simp add: sb nth_append3 [OF l])
  next
    case 2
    then have d: "a - i0 < length blk"
      by arith
    have e: "i0 + (a - i0) = a"
      using 2 by arith
    have "mid ! (a - i0)
          = take j0 (g ! a) @ blk ! (a - i0) @ drop (j0 + length (blk ! (a - i0))) (g ! a)"
      using d assms(1) by (simp add: mid_def e)
    then show ?thesis
      using 2 by (simp add: sb nth_append3 [OF l] lm)
  next
    case 3
    then have "i0 + length blk + (a - i0 - length blk) = a"
      by arith
    then show ?thesis
      using 3 assms(2) by (simp add: sb nth_append3 [OF l] lm)
  qed
qed

lemma set_block_shape:
  assumes "shape g r c" and "shape blk br bc" and "i0 + br \<le> r" and "j0 + bc \<le> c"
  shows "shape (set_block g i0 j0 blk) r c"
proof (rule shapeI)
  show "length (set_block g i0 j0 blk) = r"
    using assms(1,2,3) by (simp add: set_block_length shape_def)
next
  fix a
  assume a: "a < r"
  have lg: "length g = r" and lb: "length blk = br"
    using assms(1,2) by (simp_all add: shape_def)
  have row: "length (g ! a) = c"
    by (rule shape_nth [OF assms(1) a])
  show "length (set_block g i0 j0 blk ! a) = c"
  proof (cases "i0 \<le> a \<and> a < i0 + br")
    case True
    then have "length (blk ! (a - i0)) = bc"
      by (intro shape_nth [OF assms(2)]) arith
    then show ?thesis
      using True a lg lb assms(3,4) row by (simp add: set_block_row)
  next
    case False
    have "set_block g i0 j0 blk ! a = g ! a"
      using False a lg lb assms(3) by (simp only: set_block_row) auto
    then show ?thesis
      using row by simp
  qed
qed

lemma set_block_cell:
  assumes "shape g r c" and "shape blk br bc" and "i0 + br \<le> r" and "j0 + bc \<le> c"
      and "a < r" and "b < c"
  shows "set_block g i0 j0 blk ! a ! b
         = (if i0 \<le> a \<and> a < i0 + br \<and> j0 \<le> b \<and> b < j0 + bc
            then blk ! (a - i0) ! (b - j0) else g ! a ! b)"
proof -
  have lg: "length g = r" and lb: "length blk = br"
    using assms(1,2) by (simp_all add: shape_def)
  have row: "length (g ! a) = c"
    by (rule shape_nth [OF assms(1,5)])
  show ?thesis
  proof (cases "i0 \<le> a \<and> a < i0 + br")
    case True
    then have w: "length (blk ! (a - i0)) = bc"
      by (intro shape_nth [OF assms(2)]) arith
    have "set_block g i0 j0 blk ! a
          = take j0 (g ! a) @ blk ! (a - i0) @ drop (j0 + length (blk ! (a - i0))) (g ! a)"
      using True assms(3,5) lg lb by (simp add: set_block_row)
    moreover have "(take j0 (g ! a) @ blk ! (a - i0) @ drop (j0 + length (blk ! (a - i0))) (g ! a)) ! b
          = (if j0 \<le> b \<and> b < j0 + length (blk ! (a - i0)) then blk ! (a - i0) ! (b - j0) else g ! a ! b)"
      using assms(4,6) row w by (intro row_patch_nth) simp_all
    ultimately show ?thesis
      using True w by simp
  next
    case False
    have "set_block g i0 j0 blk ! a = g ! a"
      using False assms(3,5) lg lb by (simp only: set_block_row) auto
    then show ?thesis
      using False by auto
  qed
qed

lemma column_block_shape: "shape (column_block vs) (length vs) 1"
  by (simp add: column_block_def shape_def list_all_length)

lemma column_block_cell: "a < length vs \<Longrightarrow> column_block vs ! a ! 0 = vs ! a"
  by (simp add: column_block_def)

lemma row_block_shape: "shape [vs] 1 (length vs)"
  by (simp add: shape_def)

lemma cell_block_shape: "shape [[v]] 1 1"
  by (simp add: shape_def)

section \<open>The halo assignments of the 2-D program\<close>

lemma assign_halos_cells:
  assumes "shape lg (R + 2) (C + 2)"
      and "length rn = C" and "length rs = C" and "length rw = R" and "length re = R"
  shows "shape (assign_halos lg rn rs rw re vnw vne vsw vse) (R + 2) (C + 2)
       \<and> (\<forall>a b. a \<le> R + 1 \<longrightarrow> b \<le> C + 1 \<longrightarrow>
            assign_halos lg rn rs rw re vnw vne vsw vse ! a ! b
            = (if a = 0 then (if b = 0 then vnw else if b = C + 1 then vne else rn ! (b - 1))
               else if a = R + 1
                    then (if b = 0 then vsw else if b = C + 1 then vse else rs ! (b - 1))
               else if b = 0 then rw ! (a - 1)
               else if b = C + 1 then re ! (a - 1)
               else lg ! a ! b))"
proof -
  have lr: "local_rows_of lg = R"
    using assms(1) by (simp add: shape_def local_rows_of_def)
  have lc: "local_cols_of lg = C"
    using ncols_shape [OF assms(1)] by (simp add: local_cols_of_def)
  have srn: "shape [rn] 1 C" and srs: "shape [rs] 1 C"
    using assms(2,3) by (simp_all add: shape_def)
  have srw: "shape (column_block rw) R 1" and sre: "shape (column_block re) R 1"
    using assms(4,5) column_block_shape [of rw] column_block_shape [of re] by simp_all
  define g1 where "g1 = set_block lg 0 1 [rn]"
  define g2 where "g2 = set_block g1 (R + 1) 1 [rs]"
  define g3 where "g3 = set_block g2 1 0 (column_block rw)"
  define g4 where "g4 = set_block g3 1 (C + 1) (column_block re)"
  define g5 where "g5 = set_block g4 0 0 [[vnw]]"
  define g6 where "g6 = set_block g5 0 (C + 1) [[vne]]"
  define g7 where "g7 = set_block g6 (R + 1) 0 [[vsw]]"
  define g8 where "g8 = set_block g7 (R + 1) (C + 1) [[vse]]"
  have res: "assign_halos lg rn rs rw re vnw vne vsw vse = g8"
    by (simp add: assign_halos_def Let_def lr lc g1_def g2_def g3_def g4_def g5_def g6_def
        g7_def g8_def)
  have s1: "shape g1 (R + 2) (C + 2)"
    unfolding g1_def by (rule set_block_shape [OF assms(1) srn]) simp_all
  have s2: "shape g2 (R + 2) (C + 2)"
    unfolding g2_def by (rule set_block_shape [OF s1 srs]) simp_all
  have s3: "shape g3 (R + 2) (C + 2)"
    unfolding g3_def by (rule set_block_shape [OF s2 srw]) simp_all
  have s4: "shape g4 (R + 2) (C + 2)"
    unfolding g4_def by (rule set_block_shape [OF s3 sre]) simp_all
  have s5: "shape g5 (R + 2) (C + 2)"
    unfolding g5_def by (rule set_block_shape [OF s4 cell_block_shape]) simp_all
  have s6: "shape g6 (R + 2) (C + 2)"
    unfolding g6_def by (rule set_block_shape [OF s5 cell_block_shape]) simp_all
  have s7: "shape g7 (R + 2) (C + 2)"
    unfolding g7_def by (rule set_block_shape [OF s6 cell_block_shape]) simp_all
  have s8: "shape g8 (R + 2) (C + 2)"
    unfolding g8_def by (rule set_block_shape [OF s7 cell_block_shape]) simp_all
  have cell: "g8 ! a ! b
            = (if a = 0 then (if b = 0 then vnw else if b = C + 1 then vne else rn ! (b - 1))
               else if a = R + 1
                    then (if b = 0 then vsw else if b = C + 1 then vse else rs ! (b - 1))
               else if b = 0 then rw ! (a - 1)
               else if b = C + 1 then re ! (a - 1)
               else lg ! a ! b)"
    if "a \<le> R + 1" and "b \<le> C + 1" for a b
  proof -
    have a: "a < R + 2" and b: "b < C + 2"
      using that by simp_all
    have c1: "g1 ! a ! b = (if a = 0 \<and> 1 \<le> b \<and> b \<le> C then rn ! (b - 1) else lg ! a ! b)"
      unfolding g1_def using set_block_cell [OF assms(1) srn _ _ a b, of 0 1] by auto
    have c2: "g2 ! a ! b = (if a = R + 1 \<and> 1 \<le> b \<and> b \<le> C then rs ! (b - 1) else g1 ! a ! b)"
      unfolding g2_def using set_block_cell [OF s1 srs _ _ a b, of "R + 1" 1] by auto
    have c3: "g3 ! a ! b = (if 1 \<le> a \<and> a \<le> R \<and> b = 0 then rw ! (a - 1) else g2 ! a ! b)"
    proof -
      have "1 \<le> a \<and> a \<le> R \<Longrightarrow> column_block rw ! (a - 1) ! 0 = rw ! (a - 1)"
        using assms(4) by (intro column_block_cell) arith
      then show ?thesis
        unfolding g3_def using set_block_cell [OF s2 srw _ _ a b, of 1 0] by auto
    qed
    have c4: "g4 ! a ! b = (if 1 \<le> a \<and> a \<le> R \<and> b = C + 1 then re ! (a - 1) else g3 ! a ! b)"
    proof -
      have "1 \<le> a \<and> a \<le> R \<Longrightarrow> column_block re ! (a - 1) ! 0 = re ! (a - 1)"
        using assms(5) by (intro column_block_cell) arith
      then show ?thesis
        unfolding g4_def using set_block_cell [OF s3 sre _ _ a b, of 1 "C + 1"] by auto
    qed
    have c5: "g5 ! a ! b = (if a = 0 \<and> b = 0 then vnw else g4 ! a ! b)"
      unfolding g5_def using set_block_cell [OF s4 cell_block_shape _ _ a b, of 0 0 vnw] by auto
    have c6: "g6 ! a ! b = (if a = 0 \<and> b = C + 1 then vne else g5 ! a ! b)"
      unfolding g6_def using set_block_cell [OF s5 cell_block_shape _ _ a b, of 0 "C + 1" vne] by auto
    have c7: "g7 ! a ! b = (if a = R + 1 \<and> b = 0 then vsw else g6 ! a ! b)"
      unfolding g7_def using set_block_cell [OF s6 cell_block_shape _ _ a b, of "R + 1" 0 vsw] by auto
    have c8: "g8 ! a ! b = (if a = R + 1 \<and> b = C + 1 then vse else g7 ! a ! b)"
      unfolding g8_def
      using set_block_cell [OF s7 cell_block_shape _ _ a b, of "R + 1" "C + 1" vse] by auto
    show ?thesis
      using that by (simp only: c8 c7 c6 c5 c4 c3 c2 c1) auto
  qed
  show ?thesis
    using s8 cell by (simp only: res) blast
qed

section \<open>The Cartesian topology\<close>

lemma cart_rank_less:
  assumes "py < Py" and "px < Px"
  shows "Get_cart_rank (Py, Px) (py, px) < Py * Px"
proof -
  have "py * Px + px < py * Px + Px"
    using assms(2) by simp
  also have "\<dots> = Suc py * Px"
    by simp
  also have "\<dots> \<le> Py * Px"
    using assms(1) by (intro mult_le_mono1) simp
  finally show ?thesis
    by (simp add: Get_cart_rank_def)
qed

lemma coords_of_cart_rank:
  "px < Px \<Longrightarrow> Get_coords (Py, Px) (Get_cart_rank (Py, Px) (py, px)) = (py, px)"
  by (simp add: Get_coords_def Get_cart_rank_def)

lemma cart_rank_of_coords:
  "Get_cart_rank (Py, Px) (r div Px, r mod Px) = r"
  by (simp add: Get_cart_rank_def)

lemma rank_coords_less:
  assumes "r < Py * (Px::nat)"
  shows "r div Px < Py \<and> r mod Px < Px"
proof -
  have "0 < Px"
    using assms by (cases Px) simp_all
  then show ?thesis
    using assms by (simp add: less_mult_imp_div_less)
qed

lemma neighbours_of_coords:
  assumes "px < Px"
  shows "neighbours_of (Py, Px) (Get_cart_rank (Py, Px) (py, px)) =
    \<lparr>north = Get_cart_rank (Py, Px) (top_neighbor py Py, px),
     south = Get_cart_rank (Py, Px) (bottom_neighbor py Py, px),
     west = Get_cart_rank (Py, Px) (py, top_neighbor px Px),
     east = Get_cart_rank (Py, Px) (py, bottom_neighbor px Px),
     nw = Get_cart_rank (Py, Px) (top_neighbor py Py, top_neighbor px Px),
     ne = Get_cart_rank (Py, Px) (top_neighbor py Py, bottom_neighbor px Px),
     sw = Get_cart_rank (Py, Px) (bottom_neighbor py Py, top_neighbor px Px),
     se = Get_cart_rank (Py, Px) (bottom_neighbor py Py, bottom_neighbor px Px)\<rparr>"
  by (simp add: neighbours_of_def Shift_def coords_of_cart_rank [OF assms]
      top_neighbor_def bottom_neighbor_def)

section \<open>Receives of the 2-D halo exchange\<close>

lemma find_by_tag:
  assumes "map tag ms = [0..<length ms]" and "\<forall>m\<in>set ms. src m = s"
      and "t < length ms" and "dest (ms ! t) = r"
  shows "find (\<lambda>m. src m = s \<and> dest m = r \<and> tag m = t) ms = Some (ms ! t)"
proof -
  have tags: "tag (ms ! j) = j" if "j < length ms" for j
  proof -
    have "map tag ms ! j = [0..<length ms] ! j"
      by (simp only: assms(1))
    then show ?thesis
      using that by simp
  qed
  have "src (ms ! t) = s"
    using assms(2,3) by simp
  moreover have "\<forall>j<t. \<not> (src (ms ! j) = s \<and> dest (ms ! j) = r \<and> tag (ms ! j) = t)"
    using tags assms(3) by auto
  ultimately show ?thesis
    using assms(3,4) tags [OF assms(3)] by (auto simp add: find_Some_iff)
qed

lemma halo_sends_2d_src: "m \<in> set (halo_sends_2d g s dims) \<Longrightarrow> src m = s"
  by (auto simp add: halo_sends_2d_def Let_def)

lemma halo_sends_2d_tags:
  "map tag (halo_sends_2d g s dims) = [0..<length (halo_sends_2d g s dims)]"
  by (simp add: halo_sends_2d_def Let_def upt_rec)

lemma halo_sends_2d_length: "length (halo_sends_2d g s dims) = 8"
  by (simp add: halo_sends_2d_def Let_def)

lemma receive_2d:
  assumes "s < n" and "t < 8" and "dest (halo_sends_2d (locals ! s) s dims ! t) = r"
  shows "receive (concat (map (\<lambda>rank. halo_sends_2d (locals ! rank) rank dims) [0..<n])) r s t
         = Some (payload (halo_sends_2d (locals ! s) s dims ! t))"
proof -
  have found: "find (\<lambda>m. src m = s \<and> dest m = r \<and> tag m = t) (halo_sends_2d (locals ! s) s dims)
        = Some (halo_sends_2d (locals ! s) s dims ! t)"
  proof (rule find_by_tag)
    show "map tag (halo_sends_2d (locals ! s) s dims)
          = [0..<length (halo_sends_2d (locals ! s) s dims)]"
      by (rule halo_sends_2d_tags)
    show "\<forall>m\<in>set (halo_sends_2d (locals ! s) s dims). src m = s"
      using halo_sends_2d_src by blast
    show "t < length (halo_sends_2d (locals ! s) s dims)"
      using assms(2) by (simp add: halo_sends_2d_length)
    show "dest (halo_sends_2d (locals ! s) s dims ! t) = r"
      by (rule assms(3))
  qed
  have "find (\<lambda>m. src m = s \<and> dest m = r \<and> tag m = t)
          (concat (map (\<lambda>rank. halo_sends_2d (locals ! rank) rank dims) [0..<n]))
        = Some (halo_sends_2d (locals ! s) s dims ! t)"
  proof (rule find_concat_block [where s = s])
    show "s \<in> set [0..<n]"
      using assms(1) by simp
    show "find (\<lambda>m. src m = s \<and> dest m = r \<and> tag m = t) (halo_sends_2d (locals ! s) s dims)
          = Some (halo_sends_2d (locals ! s) s dims ! t)"
      by (rule found)
  next
    fix s' m'
    assume "s' \<noteq> s" and "m' \<in> set (halo_sends_2d (locals ! s') s' dims)"
    then show "\<not> (src m' = s \<and> dest m' = r \<and> tag m' = t)"
      using halo_sends_2d_src by blast
  qed
  then show ?thesis
    by (simp add: receive_def)
qed

lemma halo_sends_2d_nth:
  shows "halo_sends_2d g s dims ! 0
         = \<lparr>src = s, dest = south (neighbours_of dims s), tag = 0, payload = south_row g\<rparr>"
    and "halo_sends_2d g s dims ! 1
         = \<lparr>src = s, dest = north (neighbours_of dims s), tag = 1, payload = north_row g\<rparr>"
    and "halo_sends_2d g s dims ! 2
         = \<lparr>src = s, dest = east (neighbours_of dims s), tag = 2, payload = east_col g\<rparr>"
    and "halo_sends_2d g s dims ! 3
         = \<lparr>src = s, dest = west (neighbours_of dims s), tag = 3, payload = west_col g\<rparr>"
    and "halo_sends_2d g s dims ! 4
         = \<lparr>src = s, dest = se (neighbours_of dims s), tag = 4, payload = se_cell g\<rparr>"
    and "halo_sends_2d g s dims ! 5
         = \<lparr>src = s, dest = sw (neighbours_of dims s), tag = 5, payload = sw_cell g\<rparr>"
    and "halo_sends_2d g s dims ! 6
         = \<lparr>src = s, dest = ne (neighbours_of dims s), tag = 6, payload = ne_cell g\<rparr>"
    and "halo_sends_2d g s dims ! 7
         = \<lparr>src = s, dest = nw (neighbours_of dims s), tag = 7, payload = nw_cell g\<rparr>"
    and "halo_sends_2d g s dims ! Suc 0
         = \<lparr>src = s, dest = north (neighbours_of dims s), tag = 1, payload = north_row g\<rparr>"
  by (simp_all add: halo_sends_2d_def Let_def)

lemma exchange_halo_2d_rank:
  assumes py: "py < Py" and px: "px < Px"
  shows "exchange_halo_2d
           (concat (map (\<lambda>rank. halo_sends_2d (locals ! rank) rank (Py, Px)) [0..<Py * Px]))
           (locals ! Get_cart_rank (Py, Px) (py, px)) (Get_cart_rank (Py, Px) (py, px)) (Py, Px)
         = Some (exchanged_patch locals (Py, Px) py px)"
proof -
  define msgs where
    "msgs = concat (map (\<lambda>rank. halo_sends_2d (locals ! rank) rank (Py, Px)) [0..<Py * Px])"
  define r where "r = Get_cart_rank (Py, Px) (py, px)"
  define up where "up = top_neighbor py Py"
  define down where "down = bottom_neighbor py Py"
  define left where "left = top_neighbor px Px"
  define right where "right = bottom_neighbor px Px"
  have Py: "0 < Py" and Px: "0 < Px"
    using py px by simp_all
  have up: "up < Py" and down: "down < Py" and left: "left < Px" and right: "right < Px"
    using Py Px
    by (simp_all add: up_def down_def left_def right_def top_neighbor_less bottom_neighbor_less)
  have inv:
    "bottom_neighbor up Py = py" "top_neighbor down Py = py"
    "bottom_neighbor left Px = px" "top_neighbor right Px = px"
    using py px
    by (simp_all add: up_def down_def left_def right_def bottom_of_top top_of_bottom)
  have nb: "neighbours_of (Py, Px) r =
    \<lparr>north = Get_cart_rank (Py, Px) (up, px),
     south = Get_cart_rank (Py, Px) (down, px),
     west = Get_cart_rank (Py, Px) (py, left),
     east = Get_cart_rank (Py, Px) (py, right),
     nw = Get_cart_rank (Py, Px) (up, left),
     ne = Get_cart_rank (Py, Px) (up, right),
     sw = Get_cart_rank (Py, Px) (down, left),
     se = Get_cart_rank (Py, Px) (down, right)\<rparr>"
    unfolding r_def up_def down_def left_def right_def by (rule neighbours_of_coords [OF px])
  have rcv: "receive msgs r (Get_cart_rank (Py, Px) (qy, qx)) t
             = Some (payload (halo_sends_2d (patch_of locals (Py, Px) qy qx)
                                (Get_cart_rank (Py, Px) (qy, qx)) (Py, Px) ! t))"
    if "qy < Py" and "qx < Px" and "t < 8"
      and "dest (halo_sends_2d (patch_of locals (Py, Px) qy qx)
                   (Get_cart_rank (Py, Px) (qy, qx)) (Py, Px) ! t) = r"
    for qy qx t
    unfolding msgs_def patch_of_def
    using that(3,4) unfolding patch_of_def
    by (intro receive_2d cart_rank_less [OF that(1,2)])
  have n: "receive msgs r (Get_cart_rank (Py, Px) (up, px)) 0
           = Some (south_row (patch_of locals (Py, Px) up px))"
    using rcv [OF up px, of 0]
    by (simp add: halo_sends_2d_nth neighbours_of_coords [OF px] inv r_def)
  have s: "receive msgs r (Get_cart_rank (Py, Px) (down, px)) (Suc 0)
           = Some (north_row (patch_of locals (Py, Px) down px))"
    using rcv [OF down px, of "Suc 0"]
    by (simp add: halo_sends_2d_nth neighbours_of_coords [OF px] inv r_def)
  have w: "receive msgs r (Get_cart_rank (Py, Px) (py, left)) 2
           = Some (east_col (patch_of locals (Py, Px) py left))"
    using rcv [OF py left, of 2]
    by (simp add: halo_sends_2d_nth neighbours_of_coords [OF left] inv r_def)
  have e: "receive msgs r (Get_cart_rank (Py, Px) (py, right)) 3
           = Some (west_col (patch_of locals (Py, Px) py right))"
    using rcv [OF py right, of 3]
    by (simp add: halo_sends_2d_nth neighbours_of_coords [OF right] inv r_def)
  have nw: "receive msgs r (Get_cart_rank (Py, Px) (up, left)) 4
           = Some (se_cell (patch_of locals (Py, Px) up left))"
    using rcv [OF up left, of 4]
    by (simp add: halo_sends_2d_nth neighbours_of_coords [OF left] inv r_def)
  have ne: "receive msgs r (Get_cart_rank (Py, Px) (up, right)) 5
           = Some (sw_cell (patch_of locals (Py, Px) up right))"
    using rcv [OF up right, of 5]
    by (simp add: halo_sends_2d_nth neighbours_of_coords [OF right] inv r_def)
  have sw: "receive msgs r (Get_cart_rank (Py, Px) (down, left)) 6
           = Some (ne_cell (patch_of locals (Py, Px) down left))"
    using rcv [OF down left, of 6]
    by (simp add: halo_sends_2d_nth neighbours_of_coords [OF left] inv r_def)
  have se: "receive msgs r (Get_cart_rank (Py, Px) (down, right)) 7
           = Some (nw_cell (patch_of locals (Py, Px) down right))"
    using rcv [OF down right, of 7]
    by (simp add: halo_sends_2d_nth neighbours_of_coords [OF right] inv r_def)
  have "exchange_halo_2d msgs (locals ! r) r (Py, Px)
        = Some (exchanged_patch locals (Py, Px) py px)"
    by (simp add: exchange_halo_2d_def receive_all_def nb n s w e nw ne sw se
        exchanged_patch_def Let_def up_def [symmetric] down_def [symmetric]
        left_def [symmetric] right_def [symmetric] patch_of_def r_def [symmetric])
  then show ?thesis
    by (simp only: msgs_def r_def)
qed

lemma exchange_halo_2d_all_eq:
  "exchange_halo_2d_all locals (Py, Px)
   = Some (map (\<lambda>r. exchanged_patch locals (Py, Px) (r div Px) (r mod Px)) [0..<Py * Px])"
  unfolding exchange_halo_2d_all_def Let_def fst_conv snd_conv
proof (rule those_map_Some)
  fix r
  assume "r \<in> set [0..<Py * Px]"
  then have "r < Py * Px" by simp
  from rank_coords_less [OF this] have c: "r div Px < Py" "r mod Px < Px"
    by simp_all
  from exchange_halo_2d_rank [OF c, of locals]
  show "exchange_halo_2d
          (concat (map (\<lambda>rank. halo_sends_2d (locals ! rank) rank (Py, Px)) [0..<Py * Px]))
          (locals ! r) r (Py, Px)
        = Some (exchanged_patch locals (Py, Px) (r div Px) (r mod Px))"
    by (simp add: cart_rank_of_coords)
qed

lemma exchange_halo_2d_all_patch:
  assumes "exchange_halo_2d_all locals (Py, Px) = Some locals'" and "py < Py" and "px < Px"
  shows "patch_of locals' (Py, Px) py px = exchanged_patch locals (Py, Px) py px"
    and "length locals' = Py * Px"
proof -
  have eq: "locals' = map (\<lambda>r. exchanged_patch locals (Py, Px) (r div Px) (r mod Px)) [0..<Py * Px]"
    using assms(1) by (simp add: exchange_halo_2d_all_eq)
  show "length locals' = Py * Px"
    by (simp add: eq)
  have "Get_cart_rank (Py, Px) (py, px) < Py * Px"
    by (rule cart_rank_less [OF assms(2,3)])
  then have "patch_of locals' (Py, Px) py px
             = exchanged_patch locals (Py, Px)
                 (Get_cart_rank (Py, Px) (py, px) div Px) (Get_cart_rank (Py, Px) (py, px) mod Px)"
    by (simp add: eq patch_of_def)
  also have "\<dots> = exchanged_patch locals (Py, Px) py px"
    using coords_of_cart_rank [OF assms(3), of Py py] by (simp add: Get_coords_def)
  finally show "patch_of locals' (Py, Px) py px = exchanged_patch locals (Py, Px) py px" .
qed

section \<open>The cells of a patch after the 2-D halo exchange\<close>

lemma local_extent_shape:
  assumes "shape L (R + 2) (C + 2)"
  shows "local_rows_of L = R" and "local_cols_of L = C"
  using assms ncols_shape [OF assms] by (simp_all add: local_rows_of_def local_cols_of_def shape_def)

lemma row_buffers:
  assumes "shape L (R + 2) (C + 2)"
  shows "length (south_row L) = C" and "length (north_row L) = C"
    and "1 \<le> b \<Longrightarrow> b \<le> C \<Longrightarrow> south_row L ! (b - 1) = L ! R ! b"
    and "1 \<le> b \<Longrightarrow> b \<le> C \<Longrightarrow> north_row L ! (b - 1) = L ! 1 ! b"
proof -
  have r1: "length (L ! 1) = C + 2" and rR: "length (L ! R) = C + 2"
    using shape_nth [OF assms, of 1] shape_nth [OF assms, of R] by simp_all
  show "length (south_row L) = C" and "length (north_row L) = C"
    using r1 rR by (simp_all add: south_row_def north_row_def local_extent_shape [OF assms])
  show "south_row L ! (b - 1) = L ! R ! b" if "1 \<le> b" and "b \<le> C"
  proof -
    have "b - 1 < C" "1 + (b - 1) = b"
      using that by simp_all
    then show ?thesis
      using rR by (simp add: south_row_def local_extent_shape [OF assms])
  qed
  show "north_row L ! (b - 1) = L ! 1 ! b" if "1 \<le> b" and "b \<le> C"
  proof -
    have "b - 1 < C" "1 + (b - 1) = b"
      using that by simp_all
    then show ?thesis
      using r1 by (simp add: north_row_def local_extent_shape [OF assms])
  qed
qed

lemma column_buffers:
  assumes "shape L (R + 2) (C + 2)"
  shows "length (west_col L) = R" and "length (east_col L) = R"
    and "1 \<le> a \<Longrightarrow> a \<le> R \<Longrightarrow> west_col L ! (a - 1) = L ! a ! 1"
    and "1 \<le> a \<Longrightarrow> a \<le> R \<Longrightarrow> east_col L ! (a - 1) = L ! a ! C"
proof -
  show "length (west_col L) = R" and "length (east_col L) = R"
    by (simp_all add: west_col_def east_col_def local_extent_shape [OF assms])
  show "west_col L ! (a - 1) = L ! a ! 1" if "1 \<le> a" and "a \<le> R"
  proof -
    have "a - 1 < R + 1 - 1" "1 + (a - 1) = a"
      using that by simp_all
    then show ?thesis
      by (simp add: west_col_def local_extent_shape [OF assms] del: One_nat_def)
  qed
  show "east_col L ! (a - 1) = L ! a ! C" if "1 \<le> a" and "a \<le> R"
  proof -
    have "a - 1 < R + 1 - 1" "1 + (a - 1) = a"
      using that by simp_all
    then show ?thesis
      by (simp add: east_col_def local_extent_shape [OF assms] del: One_nat_def)
  qed
qed

lemma corner_buffers:
  assumes "shape L (R + 2) (C + 2)"
  shows "se_cell L ! 0 = L ! R ! C" and "sw_cell L ! 0 = L ! R ! 1"
    and "ne_cell L ! 0 = L ! 1 ! C" and "nw_cell L ! 0 = L ! 1 ! 1"
  by (simp_all add: se_cell_def sw_cell_def ne_cell_def nw_cell_def local_extent_shape [OF assms])

lemma shaped_2d_patch:
  "shaped_2d ny nx (Py, Px) locals \<Longrightarrow> py < Py \<Longrightarrow> px < Px \<Longrightarrow>
   shape (patch_of locals (Py, Px) py px) (row_count ny Py py + 2) (row_count nx Px px + 2)"
  by (simp add: shaped_2d_def)

lemma exchanged_patch_cells:
  assumes "shaped_2d ny nx (Py, Px) locals" and py: "py < Py" and px: "px < Px"
  shows "shape (exchanged_patch locals (Py, Px) py px) (row_count ny Py py + 2) (row_count nx Px px + 2)
       \<and> (\<forall>a b. a \<le> row_count ny Py py + 1 \<longrightarrow> b \<le> row_count nx Px px + 1 \<longrightarrow>
            exchanged_patch locals (Py, Px) py px ! a ! b
            = patch_of locals (Py, Px) (source_proc ny Py py a) (source_proc nx Px px b)
                ! source_index ny Py py a ! source_index nx Px px b)"
proof -
  define R where "R = row_count ny Py py"
  define C where "C = row_count nx Px px"
  define up where "up = top_neighbor py Py"
  define down where "down = bottom_neighbor py Py"
  define left where "left = top_neighbor px Px"
  define right where "right = bottom_neighbor px Px"
  define Ru where "Ru = row_count ny Py up"
  define Cl where "Cl = row_count nx Px left"
  define L where "L = patch_of locals (Py, Px)"
  have Py: "0 < Py" and Px: "0 < Px"
    using py px by simp_all
  have up: "up < Py" and down: "down < Py" and left: "left < Px" and right: "right < Px"
    using Py Px
    by (simp_all add: up_def down_def left_def right_def top_neighbor_less bottom_neighbor_less)
  have sh: "shape (L qy qx) (row_count ny Py qy + 2) (row_count nx Px qx + 2)"
    if "qy < Py" and "qx < Px" for qy qx
    unfolding L_def by (rule shaped_2d_patch [OF assms(1) that])
  have s0: "shape (L py px) (R + 2) (C + 2)"
    using sh [OF py px] by (simp add: R_def C_def)
  have sn: "shape (L up px) (Ru + 2) (C + 2)"
    using sh [OF up px] by (simp add: Ru_def C_def)
  have ss: "shape (L down px) (row_count ny Py down + 2) (C + 2)"
    using sh [OF down px] by (simp add: C_def)
  have sw: "shape (L py left) (R + 2) (Cl + 2)"
    using sh [OF py left] by (simp add: R_def Cl_def)
  have se: "shape (L py right) (R + 2) (row_count nx Px right + 2)"
    using sh [OF py right] by (simp add: R_def)
  have snw: "shape (L up left) (Ru + 2) (Cl + 2)"
    using sh [OF up left] by (simp add: Ru_def Cl_def)
  have sne: "shape (L up right) (Ru + 2) (row_count nx Px right + 2)"
    using sh [OF up right] by (simp add: Ru_def)
  have ssw: "shape (L down left) (row_count ny Py down + 2) (Cl + 2)"
    using sh [OF down left] by (simp add: Cl_def)
  have sse: "shape (L down right) (row_count ny Py down + 2) (row_count nx Px right + 2)"
    by (rule sh [OF down right])
  have ex: "exchanged_patch locals (Py, Px) py px
            = assign_halos (L py px) (south_row (L up px)) (north_row (L down px))
                (east_col (L py left)) (west_col (L py right))
                (se_cell (L up left) ! 0) (sw_cell (L up right) ! 0)
                (ne_cell (L down left) ! 0) (nw_cell (L down right) ! 0)"
    by (simp add: exchanged_patch_def Let_def L_def up_def down_def left_def right_def)
  from assign_halos_cells [OF s0 row_buffers(1) [OF sn] row_buffers(2) [OF ss]
      column_buffers(2) [OF sw] column_buffers(1) [OF se]]
  have shp: "shape (exchanged_patch locals (Py, Px) py px) (R + 2) (C + 2)"
    and cells: "\<And>a b. a \<le> R + 1 \<Longrightarrow> b \<le> C + 1 \<Longrightarrow>
      exchanged_patch locals (Py, Px) py px ! a ! b
      = (if a = 0 then (if b = 0 then se_cell (L up left) ! 0
                        else if b = C + 1 then sw_cell (L up right) ! 0
                        else south_row (L up px) ! (b - 1))
         else if a = R + 1
              then (if b = 0 then ne_cell (L down left) ! 0
                    else if b = C + 1 then nw_cell (L down right) ! 0
                    else north_row (L down px) ! (b - 1))
         else if b = 0 then east_col (L py left) ! (a - 1)
         else if b = C + 1 then west_col (L py right) ! (a - 1)
         else L py px ! a ! b)"
    unfolding ex by blast+
  have src: "exchanged_patch locals (Py, Px) py px ! a ! b
             = L (source_proc ny Py py a) (source_proc nx Px px b)
                 ! source_index ny Py py a ! source_index nx Px px b"
    if a: "a \<le> R + 1" and b: "b \<le> C + 1" for a b
  proof -
    consider "a = 0" | "a = R + 1" | "1 \<le> a" "a \<le> R"
      using a by arith
    then show ?thesis
    proof cases
      case 1
      consider "b = 0" | "b = C + 1" | "1 \<le> b" "b \<le> C"
        using b by arith
      then show ?thesis
      proof cases
        case 1
        with \<open>a = 0\<close> show ?thesis
          using cells [OF a b] corner_buffers(1) [OF snw]
          by (simp add: source_proc_def source_index_def up_def left_def Ru_def Cl_def)
      next
        case 2
        with \<open>a = 0\<close> show ?thesis
          using cells [OF a b] corner_buffers(2) [OF sne]
          by (simp add: source_proc_def source_index_def up_def right_def Ru_def R_def C_def)
      next
        case 3
        with \<open>a = 0\<close> show ?thesis
          using cells [OF a b] row_buffers(3) [OF sn 3]
          by (simp add: source_proc_def source_index_def up_def Ru_def R_def C_def)
      qed
    next
      case 2
      consider "b = 0" | "b = C + 1" | "1 \<le> b" "b \<le> C"
        using b by arith
      then show ?thesis
      proof cases
        case 1
        with \<open>a = R + 1\<close> show ?thesis
          using cells [OF a b] corner_buffers(3) [OF ssw]
          by (simp add: source_proc_def source_index_def down_def left_def Cl_def R_def)
      next
        case 2
        with \<open>a = R + 1\<close> show ?thesis
          using cells [OF a b] corner_buffers(4) [OF sse]
          by (simp add: source_proc_def source_index_def down_def right_def R_def C_def)
      next
        case 3
        with \<open>a = R + 1\<close> show ?thesis
          using cells [OF a b] row_buffers(4) [OF ss 3]
          by (simp add: source_proc_def source_index_def down_def R_def C_def)
      qed
    next
      case 3
      consider "b = 0" | "b = C + 1" | "1 \<le> b" "b \<le> C"
        using b by arith
      then show ?thesis
      proof cases
        case 1
        with 3 show ?thesis
          using cells [OF a b] column_buffers(4) [OF sw 3]
          by (simp add: source_proc_def source_index_def left_def Cl_def R_def)
      next
        case 2
        with 3 show ?thesis
          using cells [OF a b] column_buffers(3) [OF se 3]
          by (simp add: source_proc_def source_index_def right_def R_def C_def)
      next
        case b3: 3
        with 3 show ?thesis
          using cells [OF a b]
          by (simp add: source_proc_def source_index_def R_def C_def)
      qed
    qed
  qed
  show ?thesis
    using shp src by (simp add: R_def C_def L_def)
qed

section \<open>The 2-D halo exchange brings the patches in step with the global grid\<close>

lemma source_axis:
  assumes "p < parts" and "parts \<le> n" and "k \<le> row_count n parts p + 1"
  shows "source_proc n parts p k < parts"
    and "1 \<le> source_index n parts p k"
    and "source_index n parts p k \<le> row_count n parts (source_proc n parts p k)"
    and "start_of n parts (source_proc n parts p k) + source_index n parts p k - 1
         = nat ((int (start_of n parts p) + int k - 1) mod int n)"
proof -
  have parts: "0 < parts"
    using assms(1) by simp
  have pos: "\<And>q. 0 < row_count n parts q"
    using parts assms(2) by (simp add: row_count_pos)
  consider "k = 0" | "k = row_count n parts p + 1" | "1 \<le> k" "k \<le> row_count n parts p"
    using assms(3) by arith
  then have "source_proc n parts p k < parts
      \<and> 1 \<le> source_index n parts p k
      \<and> source_index n parts p k \<le> row_count n parts (source_proc n parts p k)
      \<and> start_of n parts (source_proc n parts p k) + source_index n parts p k - 1
         = nat ((int (start_of n parts p) + int k - 1) mod int n)"
  proof cases
    case 1
    have "nat ((int (start_of n parts p) - 1) mod int n)
          = start_of n parts (top_neighbor p parts) + row_count n parts (top_neighbor p parts) - 1"
      by (rule halo_row_above [OF assms(1,2)])
    then show ?thesis
      using 1 pos [of "top_neighbor p parts"] top_neighbor_less [OF parts, of p]
      by (simp add: source_proc_def source_index_def)
  next
    case 2
    have "nat ((int (start_of n parts p) + int (row_count n parts p)) mod int n)
          = start_of n parts (bottom_neighbor p parts)"
      by (rule halo_row_below [OF assms(1,2)])
    moreover have "int (start_of n parts p) + int (row_count n parts p + 1) - 1
                   = int (start_of n parts p) + int (row_count n parts p)"
      by simp
    ultimately show ?thesis
      using 2 pos [of "bottom_neighbor p parts"] bottom_neighbor_less [OF parts, of p]
      by (simp add: source_proc_def source_index_def)
  next
    case 3
    have "start_of n parts p + row_count n parts p \<le> n"
      by (rule start_of_end_le [OF assms(1)])
    then have "int (start_of n parts p + k - 1) mod int n = int (start_of n parts p + k - 1)"
      using 3 by simp
    moreover have "int (start_of n parts p) + int k - 1 = int (start_of n parts p + k - 1)"
      using 3 by simp
    ultimately have "nat ((int (start_of n parts p) + int k - 1) mod int n) = start_of n parts p + k - 1"
      by (simp only: nat_int)
    then show ?thesis
      using 3 assms(1) by (simp add: source_proc_def source_index_def)
  qed
  then show "source_proc n parts p k < parts"
    and "1 \<le> source_index n parts p k"
    and "source_index n parts p k \<le> row_count n parts (source_proc n parts p k)"
    and "start_of n parts (source_proc n parts p k) + source_index n parts p k - 1
         = nat ((int (start_of n parts p) + int k - 1) mod int n)"
    by simp_all
qed

lemma owns_2d_cell:
  assumes "owns_2d ny nx (Py, Px) G locals" and "py < Py" and "px < Px"
      and "1 \<le> a" and "a \<le> row_count ny Py py" and "1 \<le> b" and "b \<le> row_count nx Px px"
  shows "patch_of locals (Py, Px) py px ! a ! b
         = G ! (start_of ny Py py + a - 1) ! (start_of nx Px px + b - 1)"
proof -
  have "a - 1 < row_count ny Py py" "b - 1 < row_count nx Px px"
    using assms(4-7) by simp_all
  then have "patch_of locals (Py, Px) py px ! (a - 1 + 1) ! (b - 1 + 1)
        = G ! (start_of ny Py py + (a - 1)) ! (start_of nx Px px + (b - 1))"
    using assms(1,2,3) by (simp add: owns_2d_def)
  then show ?thesis
    using assms(4,6) by simp
qed

lemma exchange_2d_keeps_shape:
  assumes "shaped_2d ny nx (Py, Px) locals"
      and "exchange_halo_2d_all locals (Py, Px) = Some locals'"
  shows "shaped_2d ny nx (Py, Px) locals'"
  unfolding shaped_2d_def fst_conv snd_conv
proof (intro conjI allI impI)
  show "length locals' = Py * Px"
    using assms(2) by (auto simp add: exchange_halo_2d_all_eq)
next
  fix py px
  assume c: "py < Py" "px < Px"
  show "shape (patch_of locals' (Py, Px) py px) (row_count ny Py py + 2) (row_count nx Px px + 2)"
    using exchanged_patch_cells [OF assms(1) c]
    by (simp add: exchange_halo_2d_all_patch(1) [OF assms(2) c])
qed

lemma exchange_2d_keeps_owned:
  assumes "owns_2d ny nx (Py, Px) G locals"
      and "exchange_halo_2d_all locals (Py, Px) = Some locals'"
  shows "owns_2d ny nx (Py, Px) G locals'"
proof -
  have sh: "shaped_2d ny nx (Py, Px) locals"
    using assms(1) by (simp add: owns_2d_def)
  have "patch_of locals' (Py, Px) py px ! (i + 1) ! (j + 1)
        = G ! (start_of ny Py py + i) ! (start_of nx Px px + j)"
    if c: "py < Py" "px < Px" and i: "i < row_count ny Py py" and j: "j < row_count nx Px px"
    for py px i j
  proof -
    have "exchanged_patch locals (Py, Px) py px ! (i + 1) ! (j + 1)
          = patch_of locals (Py, Px) (source_proc ny Py py (i + 1)) (source_proc nx Px px (j + 1))
              ! source_index ny Py py (i + 1) ! source_index nx Px px (j + 1)"
      using exchanged_patch_cells [OF sh c] i j by simp
    also have "\<dots> = patch_of locals (Py, Px) py px ! (i + 1) ! (j + 1)"
      using i j by (simp add: source_proc_def source_index_def)
    also have "\<dots> = G ! (start_of ny Py py + i) ! (start_of nx Px px + j)"
      using assms(1) c i j by (simp add: owns_2d_def)
    finally show ?thesis
      by (simp only: exchange_halo_2d_all_patch(1) [OF assms(2) c])
  qed
  then show ?thesis
    using exchange_2d_keeps_shape [OF sh assms(2)] by (simp add: owns_2d_def)
qed

lemma exchange_2d_syncs:
  assumes "owns_2d ny nx (Py, Px) G locals"
      and "Py \<le> ny" and "Px \<le> nx"
      and "exchange_halo_2d_all locals (Py, Px) = Some locals'"
  shows "synced_2d ny nx (Py, Px) G locals'"
proof -
  have sh: "shaped_2d ny nx (Py, Px) locals"
    using assms(1) by (simp add: owns_2d_def)
  have "patch_of locals' (Py, Px) py px ! a ! b
        = G ! nat ((int (start_of ny Py py) + int a - 1) mod int ny)
            ! nat ((int (start_of nx Px px) + int b - 1) mod int nx)"
    if c: "py < Py" "px < Px" and a: "a \<le> row_count ny Py py + 1" and b: "b \<le> row_count nx Px px + 1"
    for py px a b
  proof -
    note ya = source_axis [OF c(1) assms(2) a]
    note xb = source_axis [OF c(2) assms(3) b]
    have "patch_of locals' (Py, Px) py px ! a ! b
          = patch_of locals (Py, Px) (source_proc ny Py py a) (source_proc nx Px px b)
              ! source_index ny Py py a ! source_index nx Px px b"
      using exchanged_patch_cells [OF sh c] a b
      by (simp add: exchange_halo_2d_all_patch(1) [OF assms(4) c])
    also have "\<dots> = G ! (start_of ny Py (source_proc ny Py py a) + source_index ny Py py a - 1)
                       ! (start_of nx Px (source_proc nx Px px b) + source_index nx Px px b - 1)"
      by (rule owns_2d_cell [OF assms(1) ya(1) xb(1) ya(2) ya(3) xb(2) xb(3)])
    finally show ?thesis
      by (simp only: ya(4) xb(4))
  qed
  then show ?thesis
    using exchange_2d_keeps_shape [OF sh assms(4)] by (simp add: synced_2d_def padded_2d_def)
qed

section \<open>Scatter and gather of the 2-D program\<close>

lemma concat_rows_length:
  "length (concat (map (\<lambda>a. map (f a) [0..<Px]) [0..<Py])) = Py * Px"
  by (induction Py) simp_all

lemma concat_rows_nth:
  assumes "py < Py" and "px < Px"
  shows "concat (map (\<lambda>a. map (f a) [0..<Px]) [0..<Py]) ! (py * Px + px) = f py px"
  using assms(1)
proof (induction Py)
  case 0
  then show ?case by simp
next
  case (Suc Py)
  show ?case
  proof (cases "py = Py")
    case True
    then show ?thesis
      using assms(2) by (simp add: nth_append concat_rows_length)
  next
    case False
    then have lt: "py < Py"
      using Suc.prems by simp
    have "py * Px + px < Suc py * Px"
      using assms(2) by simp
    also have "\<dots> \<le> Py * Px"
      using lt by (intro mult_le_mono1) simp
    finally have "py * Px + px < Py * Px" .
    then show ?thesis
      using Suc.IH [OF lt] by (simp add: nth_append concat_rows_length)
  qed
qed

lemma scatter_2d_patch:
  assumes "py < Py" and "px < Px"
  shows "patch_of (scatter_2d (Py, Px) ny nx G) (Py, Px) py px
         = set_block (zeros (row_count ny Py py + 2) (row_count nx Px px + 2)) 1 1
             (block G (start_of ny Py py) (row_count ny Py py)
                      (start_of nx Px px) (row_count nx Px px))"
  using concat_rows_nth [OF assms]
  by (simp add: patch_of_def scatter_2d_def Get_cart_rank_def Let_def)

lemma scatter_2d_owns:
  assumes "shape G ny nx"
  shows "owns_2d ny nx (Py, Px) G (scatter_2d (Py, Px) ny nx G)"
proof -
  have patch: "shape (patch_of (scatter_2d (Py, Px) ny nx G) (Py, Px) py px)
                 (row_count ny Py py + 2) (row_count nx Px px + 2)
      \<and> (\<forall>i<row_count ny Py py. \<forall>j<row_count nx Px px.
           patch_of (scatter_2d (Py, Px) ny nx G) (Py, Px) py px ! (i + 1) ! (j + 1)
           = G ! (start_of ny Py py + i) ! (start_of nx Px px + j))"
    if c: "py < Py" "px < Px" for py px
  proof -
    define R where "R = row_count ny Py py"
    define C where "C = row_count nx Px px"
    define blk where "blk = block G (start_of ny Py py) R (start_of nx Px px) C"
    have fit: "start_of ny Py py + R \<le> ny" "start_of nx Px px + C \<le> nx"
      unfolding R_def C_def by (rule start_of_end_le [OF c(1)], rule start_of_end_le [OF c(2)])
    have sb: "shape blk R C"
      unfolding blk_def by (rule block_shape [OF assms fit])
    have sz: "shape (zeros (R + 2) (C + 2)) (R + 2) (C + 2)"
      by (rule zeros_shape)
    have eq: "patch_of (scatter_2d (Py, Px) ny nx G) (Py, Px) py px
              = set_block (zeros (R + 2) (C + 2)) 1 1 blk"
      by (simp add: scatter_2d_patch [OF c] R_def C_def blk_def)
    have s: "shape (set_block (zeros (R + 2) (C + 2)) 1 1 blk) (R + 2) (C + 2)"
      by (rule set_block_shape [OF sz sb]) simp_all
    have cell: "set_block (zeros (R + 2) (C + 2)) 1 1 blk ! (i + 1) ! (j + 1)
                = G ! (start_of ny Py py + i) ! (start_of nx Px px + j)"
      if "i < R" and "j < C" for i j
    proof -
      have "set_block (zeros (R + 2) (C + 2)) 1 1 blk ! (i + 1) ! (j + 1)
            = blk ! (i + 1 - 1) ! (j + 1 - 1)"
        using set_block_cell [OF sz sb, of 1 1 "i + 1" "j + 1"] that by simp
      then show ?thesis
        using block_cell [OF assms fit that] by (simp add: blk_def)
    qed
    show ?thesis
      using s cell by (simp add: eq R_def C_def)
  qed
  show ?thesis
    unfolding owns_2d_def shaped_2d_def fst_conv snd_conv
    using patch by (simp add: scatter_2d_def concat_rows_length)
qed

lemma interior_owned:
  assumes "owns_2d ny nx (Py, Px) G locals" and "py < Py" and "px < Px"
  shows "shape (interior (patch_of locals (Py, Px) py px)) (row_count ny Py py) (row_count nx Px px)"
    and "i < row_count ny Py py \<Longrightarrow> j < row_count nx Px px \<Longrightarrow>
         interior (patch_of locals (Py, Px) py px) ! i ! j
         = G ! (start_of ny Py py + i) ! (start_of nx Px px + j)"
proof -
  define R where "R = row_count ny Py py"
  define C where "C = row_count nx Px px"
  define L where "L = patch_of locals (Py, Px) py px"
  have sh: "shape L (R + 2) (C + 2)"
    using assms by (simp add: owns_2d_def shaped_2d_def L_def R_def C_def)
  have eq: "interior L = block L 1 R 1 C"
    by (simp add: interior_def local_extent_shape [OF sh])
  show "shape (interior (patch_of locals (Py, Px) py px)) (row_count ny Py py) (row_count nx Px px)"
    using block_shape [OF sh, of 1 R 1 C] by (simp add: eq L_def [symmetric] R_def [symmetric] C_def [symmetric])
  show "interior (patch_of locals (Py, Px) py px) ! i ! j
        = G ! (start_of ny Py py + i) ! (start_of nx Px px + j)"
    if "i < row_count ny Py py" and "j < row_count nx Px px"
  proof -
    have "interior L ! i ! j = L ! (1 + i) ! (1 + j)"
      unfolding eq using that by (intro block_cell [OF sh]) (simp_all add: R_def C_def)
    also have "\<dots> = G ! (start_of ny Py py + i) ! (start_of nx Px px + j)"
      using assms that by (simp add: owns_2d_def L_def)
    finally show ?thesis
      by (simp add: L_def)
  qed
qed

lemma gather_fold_2d:
  assumes "shape G ny nx" and "owns_2d ny nx (Py, Px) G locals"
      and "\<forall>c\<in>set ps. fst c < Py \<and> snd c < Px"
      and "shape cur ny nx"
  shows "shape (fold (\<lambda>(proc_row, proc_col) global_grid.
                  let target_rank = Get_cart_rank (Py, Px) (proc_row, proc_col);
                      patch = interior (locals ! target_rank);
                      row_start = start_of ny (fst (Py, Px)) proc_row;
                      col_start = start_of nx (snd (Py, Px)) proc_col
                  in set_block global_grid row_start col_start patch) ps cur) ny nx
       \<and> (\<forall>y<ny. \<forall>x<nx.
            (cur ! y ! x = G ! y ! x \<or> (\<exists>c\<in>set ps. (y, x) \<in> patch_region ny nx Py Px c)) \<longrightarrow>
            fold (\<lambda>(proc_row, proc_col) global_grid.
                  let target_rank = Get_cart_rank (Py, Px) (proc_row, proc_col);
                      patch = interior (locals ! target_rank);
                      row_start = start_of ny (fst (Py, Px)) proc_row;
                      col_start = start_of nx (snd (Py, Px)) proc_col
                  in set_block global_grid row_start col_start patch) ps cur ! y ! x
            = G ! y ! x)"
  using assms(3,4)
proof (induction ps arbitrary: cur)
  case Nil
  then show ?case by simp
next
  case (Cons c ps)
  obtain py px where c: "c = (py, px)"
    by (cases c)
  have py: "py < Py" and px: "px < Px"
    using Cons.prems(1) c by simp_all
  define R where "R = row_count ny Py py"
  define C where "C = row_count nx Px px"
  define rs where "rs = start_of ny Py py"
  define cs where "cs = start_of nx Px px"
  define patch where "patch = interior (patch_of locals (Py, Px) py px)"
  define cur' where "cur' = set_block cur rs cs patch"
  have sp: "shape patch R C"
    unfolding patch_def R_def C_def by (rule interior_owned(1) [OF assms(2) py px])
  have pc: "\<And>i j. i < R \<Longrightarrow> j < C \<Longrightarrow> patch ! i ! j = G ! (rs + i) ! (cs + j)"
    unfolding patch_def R_def C_def rs_def cs_def
    by (rule interior_owned(2) [OF assms(2) py px])
  have fit: "rs + R \<le> ny" "cs + C \<le> nx"
    unfolding R_def C_def rs_def cs_def
    by (rule start_of_end_le [OF py], rule start_of_end_le [OF px])
  have s': "shape cur' ny nx"
    unfolding cur'_def by (rule set_block_shape [OF Cons.prems(2) sp fit])
  have cell': "cur' ! y ! x = (if rs \<le> y \<and> y < rs + R \<and> cs \<le> x \<and> x < cs + C
                               then G ! y ! x else cur ! y ! x)"
    if "y < ny" and "x < nx" for y x
  proof (cases "rs \<le> y \<and> y < rs + R \<and> cs \<le> x \<and> x < cs + C")
    case True
    then have "y - rs < R" "x - cs < C" "rs + (y - rs) = y" "cs + (x - cs) = x"
      by arith+
    then have "patch ! (y - rs) ! (x - cs) = G ! y ! x"
      using pc [of "y - rs" "x - cs"] by simp
    then show ?thesis
      unfolding cur'_def using set_block_cell [OF Cons.prems(2) sp fit that] True by simp
  next
    case False
    then show ?thesis
      unfolding cur'_def using set_block_cell [OF Cons.prems(2) sp fit that] by auto
  qed
  have region: "(y, x) \<in> patch_region ny nx Py Px c
                \<longleftrightarrow> rs \<le> y \<and> y < rs + R \<and> cs \<le> x \<and> x < cs + C" for y x
    by (simp add: patch_region_def owned_def c R_def C_def rs_def cs_def)
  have rest: "\<forall>c\<in>set ps. fst c < Py \<and> snd c < Px"
    using Cons.prems(1) by simp
  note ih = Cons.IH [OF rest s']
  have step: "fold (\<lambda>(proc_row, proc_col) global_grid.
                  let target_rank = Get_cart_rank (Py, Px) (proc_row, proc_col);
                      patch = interior (locals ! target_rank);
                      row_start = start_of ny (fst (Py, Px)) proc_row;
                      col_start = start_of nx (snd (Py, Px)) proc_col
                  in set_block global_grid row_start col_start patch) (c # ps) cur
            = fold (\<lambda>(proc_row, proc_col) global_grid.
                  let target_rank = Get_cart_rank (Py, Px) (proc_row, proc_col);
                      patch = interior (locals ! target_rank);
                      row_start = start_of ny (fst (Py, Px)) proc_row;
                      col_start = start_of nx (snd (Py, Px)) proc_col
                  in set_block global_grid row_start col_start patch) ps cur'"
    by (simp add: c cur'_def patch_def patch_of_def rs_def cs_def Let_def)
  show ?case
    unfolding step
  proof (intro conjI allI impI)
    show "shape (fold (\<lambda>(proc_row, proc_col) global_grid.
                  let target_rank = Get_cart_rank (Py, Px) (proc_row, proc_col);
                      patch = interior (locals ! target_rank);
                      row_start = start_of ny (fst (Py, Px)) proc_row;
                      col_start = start_of nx (snd (Py, Px)) proc_col
                  in set_block global_grid row_start col_start patch) ps cur') ny nx"
      using ih by blast
  next
    fix y x
    assume y: "y < ny" and x: "x < nx"
      and h: "cur ! y ! x = G ! y ! x \<or> (\<exists>c\<in>set (c # ps). (y, x) \<in> patch_region ny nx Py Px c)"
    have "cur' ! y ! x = G ! y ! x \<or> (\<exists>c\<in>set ps. (y, x) \<in> patch_region ny nx Py Px c)"
      using h cell' [OF y x] region [of y x] by auto
    then show "fold (\<lambda>(proc_row, proc_col) global_grid.
                  let target_rank = Get_cart_rank (Py, Px) (proc_row, proc_col);
                      patch = interior (locals ! target_rank);
                      row_start = start_of ny (fst (Py, Px)) proc_row;
                      col_start = start_of nx (snd (Py, Px)) proc_col
                  in set_block global_grid row_start col_start patch) ps cur' ! y ! x
               = G ! y ! x"
      using ih y x by blast
  qed
qed

lemma gather_grid_2d_owned:
  assumes "shape G ny nx" and "owns_2d ny nx (Py, Px) G locals" and "0 < Py" and "0 < Px"
  shows "gather_grid_2d locals (Py, Px) ny nx = G"
proof -
  have ps: "\<forall>c\<in>set (List.product [0..<Py] [0..<Px]). fst c < Py \<and> snd c < Px"
    by auto
  note f = gather_fold_2d [OF assms(1,2) ps zeros_shape]
  show ?thesis
  proof (rule grid_eqI [where r = ny and c = nx])
    show "shape (gather_grid_2d locals (Py, Px) ny nx) ny nx"
      using f by (simp add: gather_grid_2d_def)
    show "shape G ny nx"
      by (rule assms(1))
  next
    fix y x
    assume y: "y < ny" and x: "x < nx"
    have "(y, x) \<in> {0..<ny} \<times> {0..<nx}"
      using y x by simp
    then have "(y, x) \<in> (\<Union>c \<in> {..<Py} \<times> {..<Px}. patch_region ny nx Py Px c)"
      by (simp only: patch_region_cover [OF assms(3,4)])
    then obtain c where "c \<in> {..<Py} \<times> {..<Px}" and "(y, x) \<in> patch_region ny nx Py Px c"
      by blast
    then have "\<exists>c\<in>set (List.product [0..<Py] [0..<Px]). (y, x) \<in> patch_region ny nx Py Px c"
      by (intro bexI [of _ c]) auto
    then show "gather_grid_2d locals (Py, Px) ny nx ! y ! x = G ! y ! x"
      using f y x by (simp add: gather_grid_2d_def)
  qed
qed

section \<open>The 2-D kernel on a patch in step with the global grid\<close>

lemma reference_step_cell:
  "y < ny \<Longrightarrow> x < nx \<Longrightarrow>
   reference_step ny nx G ! y ! x
   = update_cell (G ! y ! x) (sum_list (map (cell_at G) (torus_reads ny nx y x)))"
  by (simp add: reference_step_def)

lemma kernel_2d_shape:
  assumes "shape lg (R + 2) (C + 2)"
  shows "shape (compute_next_generation_2d lg) R C"
  using assms ncols_shape [OF assms]
  by (simp add: compute_next_generation_2d_def shape_def list_all_length)

lemma kernel_2d_block:
  assumes "shape G ny nx" and "py < Py" and "px < Px"
      and "shape lg (row_count ny Py py + 2) (row_count nx Px px + 2)"
      and "padded_2d ny nx (Py, Px) G lg py px"
  shows "compute_next_generation_2d lg
         = block (reference_step ny nx G) (start_of ny Py py) (row_count ny Py py)
                 (start_of nx Px px) (row_count nx Px px)"
proof -
  define R where "R = row_count ny Py py"
  define C where "C = row_count nx Px px"
  define rs where "rs = start_of ny Py py"
  define cs where "cs = start_of nx Px px"
  have sh: "shape lg (R + 2) (C + 2)"
    using assms(4) by (simp add: R_def C_def)
  have cells: "\<And>a b. a \<le> R + 1 \<Longrightarrow> b \<le> C + 1 \<Longrightarrow>
      lg ! a ! b = G ! nat ((int rs + int a - 1) mod int ny) ! nat ((int cs + int b - 1) mod int nx)"
    using assms(5) by (simp add: padded_2d_def R_def C_def rs_def cs_def)
  have fit: "rs + R \<le> ny" "cs + C \<le> nx"
    unfolding R_def C_def rs_def cs_def
    by (rule start_of_end_le [OF assms(2)], rule start_of_end_le [OF assms(3)])
  show ?thesis
    unfolding R_def [symmetric] C_def [symmetric] rs_def [symmetric] cs_def [symmetric]
  proof (rule grid_eqI [where r = R and c = C])
    show "shape (compute_next_generation_2d lg) R C"
      by (rule kernel_2d_shape [OF sh])
    show "shape (block (reference_step ny nx G) rs R cs C) R C"
      by (rule block_shape [OF reference_step_shape fit])
  next
    fix i j
    assume i: "i < R" and j: "j < C"
    have centre: "lg ! (i + 1) ! (j + 1) = G ! (rs + i) ! (cs + j)"
    proof -
      have "int rs + int (i + 1) - 1 = int (rs + i)" "int cs + int (j + 1) - 1 = int (cs + j)"
        by simp_all
      moreover have "int (rs + i) mod int ny = int (rs + i)" "int (cs + j) mod int nx = int (cs + j)"
        using i j fit by simp_all
      ultimately have "nat ((int rs + int (i + 1) - 1) mod int ny) = rs + i"
        "nat ((int cs + int (j + 1) - 1) mod int nx) = cs + j"
        by (simp_all only: nat_int)
      moreover have "lg ! (i + 1) ! (j + 1)
          = G ! nat ((int rs + int (i + 1) - 1) mod int ny)
              ! nat ((int cs + int (j + 1) - 1) mod int nx)"
        using i j by (intro cells) simp_all
      ultimately show ?thesis
        by simp
    qed
    have sums: "map (cell_at lg) (reads_2d (i + 1) (j + 1))
                = map (cell_at G) (torus_reads ny nx (rs + i) (cs + j))"
      unfolding reads_2d_def torus_reads_def map_map
    proof (rule map_cong [OF refl])
      fix off
      assume mem: "off \<in> set stencil_offsets"
      obtain di dj where off: "off = (di, dj)"
        by (cases off)
      have d: "di = -1 \<or> di = 0 \<or> di = 1" "dj = -1 \<or> dj = 0 \<or> dj = 1"
        using stencil_offsets_range mem off by blast+
      define a where "a = nat (int (i + 1) + di)"
      define b where "b = nat (int (j + 1) + dj)"
      have a: "int a = int i + 1 + di" "a \<le> R + 1"
        using d(1) i by (auto simp add: a_def)
      have b: "int b = int j + 1 + dj" "b \<le> C + 1"
        using d(2) j by (auto simp add: b_def)
      have "lg ! a ! b = G ! nat ((int rs + int a - 1) mod int ny)
                           ! nat ((int cs + int b - 1) mod int nx)"
        by (rule cells [OF a(2) b(2)])
      moreover have "int rs + int a - 1 = int (rs + i) + di" "int cs + int b - 1 = int (cs + j) + dj"
        using a(1) b(1) by simp_all
      ultimately have "lg ! a ! b = G ! nat ((int (rs + i) + di) mod int ny)
                                      ! nat ((int (cs + j) + dj) mod int nx)"
        by simp
      then show "(cell_at lg \<circ> (\<lambda>(di, dj). (nat (int (i + 1) + di), nat (int (j + 1) + dj)))) off
                  = (cell_at G \<circ> (\<lambda>(dy, dx). (nat ((int (rs + i) + dy) mod int ny),
                                              nat ((int (cs + j) + dx) mod int nx)))) off"
        by (simp add: off cell_at_def a_def b_def)
    qed
    have "compute_next_generation_2d lg ! (i + 1 - 1) ! (j + 1 - 1)
          = update_cell (lg ! (i + 1) ! (j + 1))
              (sum_list (map (cell_at lg) (reads_2d (i + 1) (j + 1))))"
      using i j sh ncols_shape [OF sh] by (intro kernel_2d_cell) (simp_all add: shape_def)
    then have "compute_next_generation_2d lg ! i ! j
          = update_cell (G ! (rs + i) ! (cs + j))
              (sum_list (map (cell_at G) (torus_reads ny nx (rs + i) (cs + j))))"
      using centre sums by simp
    also have "\<dots> = reference_step ny nx G ! (rs + i) ! (cs + j)"
      using i j fit by (intro reference_step_cell [symmetric]) simp_all
    also have "\<dots> = block (reference_step ny nx G) rs R cs C ! i ! j"
      by (rule block_cell [OF reference_step_shape fit i j, symmetric])
    finally show "compute_next_generation_2d lg ! i ! j
                  = block (reference_step ny nx G) rs R cs C ! i ! j" .
  qed
qed

lemma kernel_step_owned_2d:
  assumes "shape G ny nx" and "synced_2d ny nx (Py, Px) G locals"
  shows "owns_2d ny nx (Py, Px) (reference_step ny nx G)
           (map (\<lambda>local_grid. set_block local_grid 1 1 (compute_next_generation_2d local_grid)) locals)"
proof -
  define locals' where
    "locals' = map (\<lambda>local_grid. set_block local_grid 1 1 (compute_next_generation_2d local_grid)) locals"
  have len: "length locals = Py * Px"
    using assms(2) by (simp add: synced_2d_def shaped_2d_def)
  have patch: "shape (patch_of locals' (Py, Px) py px) (row_count ny Py py + 2) (row_count nx Px px + 2)
      \<and> (\<forall>i<row_count ny Py py. \<forall>j<row_count nx Px px.
           patch_of locals' (Py, Px) py px ! (i + 1) ! (j + 1)
           = reference_step ny nx G ! (start_of ny Py py + i) ! (start_of nx Px px + j))"
    if c: "py < Py" "px < Px" for py px
  proof -
    define R where "R = row_count ny Py py"
    define C where "C = row_count nx Px px"
    define lg where "lg = patch_of locals (Py, Px) py px"
    define nxt where "nxt = compute_next_generation_2d lg"
    have sh: "shape lg (R + 2) (C + 2)"
      using assms(2) c by (simp add: synced_2d_def shaped_2d_def lg_def R_def C_def)
    have pd: "padded_2d ny nx (Py, Px) G lg py px"
      using assms(2) c by (simp add: synced_2d_def lg_def)
    have fit: "start_of ny Py py + R \<le> ny" "start_of nx Px px + C \<le> nx"
      unfolding R_def C_def by (rule start_of_end_le [OF c(1)], rule start_of_end_le [OF c(2)])
    have k: "nxt = block (reference_step ny nx G) (start_of ny Py py) R (start_of nx Px px) C"
      unfolding nxt_def R_def C_def
      using sh by (intro kernel_2d_block [OF assms(1) c _ pd]) (simp add: R_def C_def)
    have sn: "shape nxt R C"
      unfolding nxt_def by (rule kernel_2d_shape [OF sh])
    have "Get_cart_rank (Py, Px) (py, px) < length locals"
      using cart_rank_less [OF c] len by simp
    then have eq: "patch_of locals' (Py, Px) py px = set_block lg 1 1 nxt"
      by (simp add: patch_of_def locals'_def lg_def nxt_def)
    have s: "shape (set_block lg 1 1 nxt) (R + 2) (C + 2)"
      by (rule set_block_shape [OF sh sn]) simp_all
    have cell: "set_block lg 1 1 nxt ! (i + 1) ! (j + 1)
                = reference_step ny nx G ! (start_of ny Py py + i) ! (start_of nx Px px + j)"
      if "i < R" and "j < C" for i j
    proof -
      have "set_block lg 1 1 nxt ! (i + 1) ! (j + 1) = nxt ! (i + 1 - 1) ! (j + 1 - 1)"
        using set_block_cell [OF sh sn, of 1 1 "i + 1" "j + 1"] that by simp
      then show ?thesis
        using block_cell [OF reference_step_shape fit that, of G] by (simp add: k)
    qed
    show ?thesis
      using s cell by (simp add: eq R_def C_def)
  qed
  show ?thesis
    unfolding locals'_def [symmetric] owns_2d_def shaped_2d_def fst_conv snd_conv
    using patch len by (simp add: locals'_def)
qed

section \<open>The 2-D run against the sequential reference\<close>

lemma loop_body_2d_result:
  assumes "shape G ny nx" and "0 < Py" and "0 < Px" and "Py \<le> ny" and "Px \<le> nx"
      and "synced_2d ny nx (Py, Px) G locals"
  shows "\<exists>locals'.
           loop_body_2d (Py, Px) ny nx steps save_interval step (locals, snapshots)
             = Some (locals',
                     snapshots @ (if 0 < save_interval \<and> (step + 1) mod save_interval = 0
                                  then [(step + 1, reference_step ny nx G)] else []))
           \<and> owns_2d ny nx (Py, Px) (reference_step ny nx G) locals'
           \<and> (int step < int steps - 1 \<longrightarrow> synced_2d ny nx (Py, Px) (reference_step ny nx G) locals')"
proof -
  define G' where "G' = reference_step ny nx G"
  define updated where
    "updated = map (\<lambda>local_grid. set_block local_grid 1 1 (compute_next_generation_2d local_grid)) locals"
  have sh: "shape G' ny nx"
    unfolding G'_def by (rule reference_step_shape)
  have own: "owns_2d ny nx (Py, Px) G' updated"
    unfolding G'_def updated_def by (rule kernel_step_owned_2d [OF assms(1,6)])
  show ?thesis
  proof (cases "int step < int steps - 1")
    case True
    obtain exchanged where ex: "exchange_halo_2d_all updated (Py, Px) = Some exchanged"
      by (simp add: exchange_halo_2d_all_eq)
    have own': "owns_2d ny nx (Py, Px) G' exchanged"
      by (rule exchange_2d_keeps_owned [OF own ex])
    have syn: "synced_2d ny nx (Py, Px) G' exchanged"
      by (rule exchange_2d_syncs [OF own assms(4,5) ex])
    have "gather_grid_2d exchanged (Py, Px) ny nx = G'"
      by (rule gather_grid_2d_owned [OF sh own' assms(2,3)])
    then have "loop_body_2d (Py, Px) ny nx steps save_interval step (locals, snapshots)
             = Some (exchanged,
                     snapshots @ (if 0 < save_interval \<and> (step + 1) mod save_interval = 0
                                  then [(step + 1, G')] else []))"
      unfolding loop_body_2d_def prod.case Let_def updated_def [symmetric]
      using True ex by simp
    then show ?thesis
      using own' syn unfolding G'_def by blast
  next
    case False
    have "gather_grid_2d updated (Py, Px) ny nx = G'"
      by (rule gather_grid_2d_owned [OF sh own assms(2,3)])
    then have "loop_body_2d (Py, Px) ny nx steps save_interval step (locals, snapshots)
             = Some (updated,
                     snapshots @ (if 0 < save_interval \<and> (step + 1) mod save_interval = 0
                                  then [(step + 1, G')] else []))"
      unfolding loop_body_2d_def prod.case Let_def updated_def [symmetric]
      using False by simp
    then show ?thesis
      using own False unfolding G'_def by blast
  qed
qed

lemma main_loop_2d_result:
  assumes "shape G ny nx" and "0 < Py" and "0 < Px" and "Py \<le> ny" and "Px \<le> nx"
      and "a \<le> steps"
      and "owns_2d ny nx (Py, Px) ((reference_step ny nx ^^ a) G) locals"
      and "a < steps \<longrightarrow> synced_2d ny nx (Py, Px) ((reference_step ny nx ^^ a) G) locals"
  shows "\<exists>locals'.
           main_loop_2d (Py, Px) ny nx steps save_interval [a..<steps] (locals, snapshots)
             = Some (locals',
                     snapshots @ map (\<lambda>k. (k, (reference_step ny nx ^^ k) G))
                                     (snapshot_steps save_interval a steps))
           \<and> owns_2d ny nx (Py, Px) ((reference_step ny nx ^^ steps) G) locals'"
  using assms(6,7,8)
proof (induction "steps - a" arbitrary: a locals snapshots)
  case 0
  then have "a = steps" by simp
  then show ?case
    using "0.prems"(2) by (simp add: snapshot_steps_done)
next
  case (Suc n)
  then have lt: "a < steps" by simp
  define Ga where "Ga = (reference_step ny nx ^^ a) G"
  have sh: "shape Ga ny nx"
    unfolding Ga_def by (rule reference_steps_shape [OF assms(1)])
  have syn: "synced_2d ny nx (Py, Px) Ga locals"
    using Suc.prems(3) lt by (simp add: Ga_def)
  have next_grid: "reference_step ny nx Ga = (reference_step ny nx ^^ Suc a) G"
    by (simp add: Ga_def)
  from loop_body_2d_result [OF sh assms(2,3,4,5) syn, of steps save_interval a snapshots]
  obtain locals1 where
    body: "loop_body_2d (Py, Px) ny nx steps save_interval a (locals, snapshots)
             = Some (locals1,
                     snapshots @ (if 0 < save_interval \<and> (a + 1) mod save_interval = 0
                                  then [(a + 1, reference_step ny nx Ga)] else []))"
    and own1: "owns_2d ny nx (Py, Px) (reference_step ny nx Ga) locals1"
    and syn1: "int a < int steps - 1 \<longrightarrow> synced_2d ny nx (Py, Px) (reference_step ny nx Ga) locals1"
    by blast
  have "n = steps - Suc a"
    using Suc.hyps(2) by simp
  moreover have "Suc a \<le> steps"
    using lt by simp
  moreover have "owns_2d ny nx (Py, Px) ((reference_step ny nx ^^ Suc a) G) locals1"
    using own1 by (simp only: next_grid)
  moreover have "Suc a < steps \<longrightarrow> synced_2d ny nx (Py, Px) ((reference_step ny nx ^^ Suc a) G) locals1"
    using syn1 by (simp only: next_grid) auto
  ultimately obtain locals' where
    rest: "main_loop_2d (Py, Px) ny nx steps save_interval [Suc a..<steps]
             (locals1, snapshots @ (if 0 < save_interval \<and> (a + 1) mod save_interval = 0
                                    then [(a + 1, reference_step ny nx Ga)] else []))
           = Some (locals',
                   (snapshots @ (if 0 < save_interval \<and> (a + 1) mod save_interval = 0
                                 then [(a + 1, reference_step ny nx Ga)] else []))
                   @ map (\<lambda>k. (k, (reference_step ny nx ^^ k) G))
                         (snapshot_steps save_interval (Suc a) steps))"
    and own': "owns_2d ny nx (Py, Px) ((reference_step ny nx ^^ steps) G) locals'"
    using Suc.hyps(1) [of "Suc a" locals1] by blast
  have "[a..<steps] = a # [Suc a..<steps]"
    using lt by (simp add: upt_conv_Cons)
  then have "main_loop_2d (Py, Px) ny nx steps save_interval [a..<steps] (locals, snapshots)
           = Some (locals',
                   snapshots @ map (\<lambda>k. (k, (reference_step ny nx ^^ k) G))
                                   (snapshot_steps save_interval a steps))"
    using body rest by (simp add: snapshot_steps_next [OF lt] next_grid)
  then show ?case
    using own' by blast
qed

lemma main_2d_result:
  assumes "shape G ny nx" and "0 < Py" and "0 < Px" and "Py \<le> ny" and "Px \<le> nx"
  shows "main_2d (Py, Px) ny nx steps save_interval G
         = Some ((reference_step ny nx ^^ steps) G,
                 (if 0 < save_interval then [(0, G)] else [])
                 @ map (\<lambda>k. (k, (reference_step ny nx ^^ k) G)) (snapshot_steps save_interval 0 steps)
                 @ [(steps, (reference_step ny nx ^^ steps) G)])"
proof -
  obtain local_grids where
    ex: "exchange_halo_2d_all (scatter_2d (Py, Px) ny nx G) (Py, Px) = Some local_grids"
    by (simp add: exchange_halo_2d_all_eq)
  have own0: "owns_2d ny nx (Py, Px) G (scatter_2d (Py, Px) ny nx G)"
    by (rule scatter_2d_owns [OF assms(1)])
  have own: "owns_2d ny nx (Py, Px) G local_grids"
    by (rule exchange_2d_keeps_owned [OF own0 ex])
  have syn: "synced_2d ny nx (Py, Px) G local_grids"
    by (rule exchange_2d_syncs [OF own0 assms(4,5) ex])
  have g0: "gather_grid_2d local_grids (Py, Px) ny nx = G"
    by (rule gather_grid_2d_owned [OF assms(1) own assms(2,3)])
  define initial where "initial = (if 0 < save_interval then [(0::nat, G)] else [])"
  have "owns_2d ny nx (Py, Px) ((reference_step ny nx ^^ 0) G) local_grids"
       "0 < steps \<longrightarrow> synced_2d ny nx (Py, Px) ((reference_step ny nx ^^ 0) G) local_grids"
    using own syn by simp_all
  from main_loop_2d_result [OF assms(1,2,3,4,5) _ this, of save_interval initial]
  obtain locals' where
    loop: "main_loop_2d (Py, Px) ny nx steps save_interval [0..<steps] (local_grids, initial)
           = Some (locals',
                   initial @ map (\<lambda>k. (k, (reference_step ny nx ^^ k) G))
                                 (snapshot_steps save_interval 0 steps))"
    and own': "owns_2d ny nx (Py, Px) ((reference_step ny nx ^^ steps) G) locals'"
    by blast
  have "gather_grid_2d locals' (Py, Px) ny nx = (reference_step ny nx ^^ steps) G"
    by (rule gather_grid_2d_owned [OF reference_steps_shape [OF assms(1)] own' assms(2,3)])
  then show ?thesis
    using ex g0 loop
    by (cases "0 < save_interval") (simp_all add: main_2d_def initial_def Let_def)
qed

section \<open>The round trip of scatter and gather\<close>

text \<open>
  C6: for every global grid \<open>G\<close> of shape \<open>(ny, nx)\<close> and every process count (1-D) or
  process grid (2-D) of at least one process, scattering \<open>G\<close> to the patches and gathering
  them back with no step applied gives \<open>G\<close> on rank 0. This holds for the gather right
  after the scatter, and for the gather the programs do after their initial halo exchange
  (the exchange completes and does not change an owned cell). The 1-D program computes
  its dimensions and buffer sizes on \<open>int32\<close>: there the scatter and the gather complete,
  with this result, when \<open>ny\<close>, \<open>nx\<close> and the number of cells \<open>ny * nx\<close> are below \<open>2 ^ 31\<close>;
  on any other grid the gather stops with an exception, so whenever the round trip gives
  a grid it is \<open>G\<close>.
\<close>

theorem scatter_gather_roundtrip:
  assumes "shape G ny nx" and "0 < nprocs" and "0 < Py" and "0 < Px"
  shows "(ny < 2 ^ 31 \<and> nx < 2 ^ 31 \<and> ny * nx < 2 ^ 31 \<longrightarrow>
            (\<exists>patches. scatter_1d nprocs ny nx G = Inr patches
               \<and> gather_grid patches nprocs ny nx = Inr G
               \<and> (\<exists>locals. exchange_halo_all patches nprocs = Some locals
                             \<and> gather_grid locals nprocs ny nx = Inr G)))
       \<and> (\<forall>patches g. scatter_1d nprocs ny nx G = Inr patches
                      \<and> gather_grid patches nprocs ny nx = Inr g \<longrightarrow> g = G)
       \<and> gather_grid_2d (scatter_2d (Py, Px) ny nx G) (Py, Px) ny nx = G
       \<and> (\<exists>locals. exchange_halo_2d_all (scatter_2d (Py, Px) ny nx G) (Py, Px) = Some locals
                    \<and> gather_grid_2d locals (Py, Px) ny nx = G)"
proof -
  have b: "\<forall>patches g. scatter_1d nprocs ny nx G = Inr patches
                      \<and> gather_grid patches nprocs ny nx = Inr g \<longrightarrow> g = G"
  proof (intro allI impI)
    fix patches g
    assume r: "scatter_1d nprocs ny nx G = Inr patches
               \<and> gather_grid patches nprocs ny nx = Inr g"
    then have fit: "ny * nx < 2 ^ 31"
      using gather_grid_needs_int32 by blast
    have "patches = padded_strips nprocs ny nx G"
      using r scatter_1d_eq [OF assms(1) fit, of nprocs] by simp
    then have "gather_grid patches nprocs ny nx = Inr G"
      using gather_grid_owned [OF assms(1) padded_strips_owns [OF assms(1)] assms(2) fit]
      by simp
    then show "g = G"
      using r by simp
  qed
  have own2: "owns_2d ny nx (Py, Px) G (scatter_2d (Py, Px) ny nx G)"
    by (rule scatter_2d_owns [OF assms(1)])
  have a: "\<exists>patches. scatter_1d nprocs ny nx G = Inr patches
               \<and> gather_grid patches nprocs ny nx = Inr G
               \<and> (\<exists>locals. exchange_halo_all patches nprocs = Some locals
                             \<and> gather_grid locals nprocs ny nx = Inr G)"
    if "ny < 2 ^ 31 \<and> nx < 2 ^ 31 \<and> ny * nx < 2 ^ 31"
  proof -
    have fit: "ny * nx < 2 ^ 31"
      using that by simp
    define patches where "patches = padded_strips nprocs ny nx G"
    have sc: "scatter_1d nprocs ny nx G = Inr patches"
      unfolding patches_def by (rule scatter_1d_eq [OF assms(1) fit])
    have own1: "owns_1d ny nprocs G patches"
      unfolding patches_def by (rule padded_strips_owns [OF assms(1)])
    have g: "gather_grid patches nprocs ny nx = Inr G"
      by (rule gather_grid_owned [OF assms(1) own1 assms(2) fit])
    obtain l1 where e1: "exchange_halo_all patches nprocs = Some l1"
      by (simp add: exchange_halo_all_eq)
    have "gather_grid l1 nprocs ny nx = Inr G"
      by (rule gather_grid_owned [OF assms(1) exchange_keeps_owned [OF own1 e1] assms(2) fit])
    then show ?thesis
      using sc g e1 by blast
  qed
  have c: "gather_grid_2d (scatter_2d (Py, Px) ny nx G) (Py, Px) ny nx = G"
    by (rule gather_grid_2d_owned [OF assms(1) own2 assms(3,4)])
  obtain l2 where e2: "exchange_halo_2d_all (scatter_2d (Py, Px) ny nx G) (Py, Px) = Some l2"
    by (simp add: exchange_halo_2d_all_eq)
  have "gather_grid_2d l2 (Py, Px) ny nx = G"
    by (rule gather_grid_2d_owned [OF assms(1) exchange_2d_keeps_owned [OF own2 e2] assms(3,4)])
  then have d: "\<exists>locals. exchange_halo_2d_all (scatter_2d (Py, Px) ny nx G) (Py, Px) = Some locals
                    \<and> gather_grid_2d locals (Py, Px) ny nx = G"
    using e2 by blast
  show ?thesis
    using a by (intro conjI impI b c d)
qed

theorem scatter_gather_roundtrip_witness:
  "shape [[0, 1, 0], [1, 1, 0], [0, 0, 1], [1, 0, 1]] 4 3 \<and> (0::nat) < 3 \<and> (0::nat) < 2
   \<and> (4::nat) < 2 ^ 31 \<and> (3::nat) < 2 ^ 31 \<and> (4::nat) * 3 < 2 ^ 31
   \<and> scatter_1d 3 4 3 [[0, 1, 0], [1, 1, 0], [0, 0, 1], [1, 0, 1]]
       = Inr [[[0, 0, 0], [0, 1, 0], [1, 1, 0], [0, 0, 0]],
              [[0, 0, 0], [0, 0, 1], [0, 0, 0]],
              [[0, 0, 0], [1, 0, 1], [0, 0, 0]]]
   \<and> gather_grid [[[0, 0, 0], [0, 1, 0], [1, 1, 0], [0, 0, 0]],
                    [[0, 0, 0], [0, 0, 1], [0, 0, 0]],
                    [[0, 0, 0], [1, 0, 1], [0, 0, 0]]] 3 4 3
       = Inr [[0, 1, 0], [1, 1, 0], [0, 0, 1], [1, 0, 1]]
   \<and> gather_grid_2d (scatter_2d (2, 2) 4 3 [[0, 1, 0], [1, 1, 0], [0, 0, 1], [1, 0, 1]]) (2, 2) 4 3
       = [[0, 1, 0], [1, 1, 0], [0, 0, 1], [1, 0, 1]]"
proof -
  have s: "shape [[0, 1, 0], [1, 1, 0], [0, 0, 1], [1, 0, 1]] 4 3"
    by (simp add: shape_def)
  have p: "(0::nat) < 3" "(0::nat) < 2"
    by simp_all
  have fit: "(4::nat) < 2 ^ 31 \<and> (3::nat) < 2 ^ 31 \<and> (4::nat) * 3 < 2 ^ 31"
    by simp
  have sc: "scatter_1d 3 4 3 [[0, 1, 0], [1, 1, 0], [0, 0, 1], [1, 0, 1]]
       = Inr [[[0, 0, 0], [0, 1, 0], [1, 1, 0], [0, 0, 0]],
              [[0, 0, 0], [0, 0, 1], [0, 0, 0]],
              [[0, 0, 0], [1, 0, 1], [0, 0, 0]]]"
    by code_simp
  note t = scatter_gather_roundtrip [OF s p(1) p(2) p(2)]
  from t [THEN conjunct1, rule_format, OF fit]
  have g: "gather_grid [[[0, 0, 0], [0, 1, 0], [1, 1, 0], [0, 0, 0]],
                    [[0, 0, 0], [0, 0, 1], [0, 0, 0]],
                    [[0, 0, 0], [1, 0, 1], [0, 0, 0]]] 3 4 3
       = Inr [[0, 1, 0], [1, 1, 0], [0, 0, 1], [1, 0, 1]]"
    unfolding sc by auto
  have "gather_grid_2d (scatter_2d (2, 2) 4 3 [[0, 1, 0], [1, 1, 0], [0, 0, 1], [1, 0, 1]]) (2, 2) 4 3
       = [[0, 1, 0], [1, 1, 0], [0, 0, 1], [1, 0, 1]]"
    by (rule t [THEN conjunct2, THEN conjunct2, THEN conjunct1])
  then show ?thesis
    using s sc g by simp
qed

section \<open>Equivalence under decomposition\<close>

text \<open>
  C1: for every valid configuration the distributed run equals the sequential reference.
  For an initial grid \<open>G\<close> of shape \<open>(ny, nx)\<close> (whatever pattern and seed produced it), a
  1-D run on \<open>nprocs\<close> processes with \<open>1 \<le> nprocs \<le> ny\<close> and a 2-D run on a
  \<open>Py \<times> Px\<close> process grid with \<open>1 \<le> Py \<le> ny\<close> and \<open>1 \<le> Px \<le> nx\<close> both complete; the
  grid gathered after \<open>steps\<close> steps is \<open>steps\<close> applications of the global rule to \<open>G\<close>,
  and every snapshot saved under step \<open>k\<close> (step 0, the steps at the save interval and the
  final state) is \<open>k\<close> applications of the global rule to \<open>G\<close>. The 1-D program holds the
  dimensions and the buffer sizes as \<open>int32\<close>: its run completes with this result when
  \<open>ny\<close>, \<open>nx\<close> and the number of cells \<open>ny * nx\<close> are below \<open>2 ^ 31\<close>; on any other grid it
  stops with an exception and gathers no grid, so whenever a 1-D run returns a grid and
  snapshots, they are those of the global rule.
\<close>

theorem distributed_equals_sequential:
  assumes "shape G ny nx"
      and "0 < nprocs" and "nprocs \<le> ny"
      and "0 < Py" and "0 < Px" and "Py \<le> ny" and "Px \<le> nx"
  shows "(ny < 2 ^ 31 \<and> nx < 2 ^ 31 \<and> ny * nx < 2 ^ 31 \<longrightarrow>
            main_1d nprocs ny nx steps save_interval G
            = Inr ((reference_step ny nx ^^ steps) G,
                   (if 0 < save_interval then [(0, G)] else [])
                   @ map (\<lambda>k. (k, (reference_step ny nx ^^ k) G)) (snapshot_steps save_interval 0 steps)
                   @ [(steps, (reference_step ny nx ^^ steps) G)]))
       \<and> (\<forall>res. main_1d nprocs ny nx steps save_interval G = Inr res \<longrightarrow>
                  (ny < 2 ^ 31 \<and> nx < 2 ^ 31 \<and> ny * nx < 2 ^ 31)
                \<and> res = ((reference_step ny nx ^^ steps) G,
                          (if 0 < save_interval then [(0, G)] else [])
                          @ map (\<lambda>k. (k, (reference_step ny nx ^^ k) G))
                                (snapshot_steps save_interval 0 steps)
                          @ [(steps, (reference_step ny nx ^^ steps) G)]))
       \<and> main_2d (Py, Px) ny nx steps save_interval G
         = Some ((reference_step ny nx ^^ steps) G,
                 (if 0 < save_interval then [(0, G)] else [])
                 @ map (\<lambda>k. (k, (reference_step ny nx ^^ k) G)) (snapshot_steps save_interval 0 steps)
                 @ [(steps, (reference_step ny nx ^^ steps) G)])"
proof -
  have one: "main_1d nprocs ny nx steps save_interval G
            = Inr ((reference_step ny nx ^^ steps) G,
                   (if 0 < save_interval then [(0, G)] else [])
                   @ map (\<lambda>k. (k, (reference_step ny nx ^^ k) G)) (snapshot_steps save_interval 0 steps)
                   @ [(steps, (reference_step ny nx ^^ steps) G)])"
    if "ny < 2 ^ 31 \<and> nx < 2 ^ 31 \<and> ny * nx < 2 ^ 31"
    using that main_1d_result [OF assms(1,2,3)] by blast
  have only: "(ny < 2 ^ 31 \<and> nx < 2 ^ 31 \<and> ny * nx < 2 ^ 31)
                \<and> res = ((reference_step ny nx ^^ steps) G,
                          (if 0 < save_interval then [(0, G)] else [])
                          @ map (\<lambda>k. (k, (reference_step ny nx ^^ k) G))
                                (snapshot_steps save_interval 0 steps)
                          @ [(steps, (reference_step ny nx ^^ steps) G)])"
    if ret: "main_1d nprocs ny nx steps save_interval G = Inr res" for res
  proof -
    have fit: "ny < 2 ^ 31 \<and> nx < 2 ^ 31 \<and> ny * nx < 2 ^ 31"
      by (rule main_1d_needs_int32 [OF ret])
    show ?thesis
      using fit one [OF fit] ret by simp
  qed
  have c1: "ny < 2 ^ 31 \<and> nx < 2 ^ 31 \<and> ny * nx < 2 ^ 31 \<longrightarrow>
            main_1d nprocs ny nx steps save_interval G
            = Inr ((reference_step ny nx ^^ steps) G,
                   (if 0 < save_interval then [(0, G)] else [])
                   @ map (\<lambda>k. (k, (reference_step ny nx ^^ k) G)) (snapshot_steps save_interval 0 steps)
                   @ [(steps, (reference_step ny nx ^^ steps) G)])"
    using one by (rule impI)
  have c2: "\<forall>res. main_1d nprocs ny nx steps save_interval G = Inr res \<longrightarrow>
                  (ny < 2 ^ 31 \<and> nx < 2 ^ 31 \<and> ny * nx < 2 ^ 31)
                \<and> res = ((reference_step ny nx ^^ steps) G,
                          (if 0 < save_interval then [(0, G)] else [])
                          @ map (\<lambda>k. (k, (reference_step ny nx ^^ k) G))
                                (snapshot_steps save_interval 0 steps)
                          @ [(steps, (reference_step ny nx ^^ steps) G)])"
    using only by (intro allI impI)
  show ?thesis
    by (intro conjI c1 c2 main_2d_result [OF assms(1,4,5,6,7)])
qed

theorem distributed_equals_sequential_witness:
  "shape [[0, 1, 0, 0, 0], [0, 0, 1, 0, 0], [1, 1, 1, 0, 0], [0, 0, 0, 0, 0], [0, 0, 0, 0, 0]] 5 5
   \<and> (0::nat) < 2 \<and> (2::nat) \<le> 5 \<and> (0::nat) < 3 \<and> (3::nat) \<le> 5
   \<and> (5::nat) < 2 ^ 31 \<and> (5::nat) < 2 ^ 31 \<and> (5::nat) * 5 < 2 ^ 31
   \<and> main_1d 3 5 5 2 1
        [[0, 1, 0, 0, 0], [0, 0, 1, 0, 0], [1, 1, 1, 0, 0], [0, 0, 0, 0, 0], [0, 0, 0, 0, 0]]
      = Inr ([[0, 0, 0, 0, 0], [0, 0, 1, 0, 0], [1, 0, 1, 0, 0], [0, 1, 1, 0, 0], [0, 0, 0, 0, 0]],
              [(0, [[0, 1, 0, 0, 0], [0, 0, 1, 0, 0], [1, 1, 1, 0, 0], [0, 0, 0, 0, 0], [0, 0, 0, 0, 0]]),
               (1, [[0, 0, 0, 0, 0], [1, 0, 1, 0, 0], [0, 1, 1, 0, 0], [0, 1, 0, 0, 0], [0, 0, 0, 0, 0]]),
               (2, [[0, 0, 0, 0, 0], [0, 0, 1, 0, 0], [1, 0, 1, 0, 0], [0, 1, 1, 0, 0], [0, 0, 0, 0, 0]]),
               (2, [[0, 0, 0, 0, 0], [0, 0, 1, 0, 0], [1, 0, 1, 0, 0], [0, 1, 1, 0, 0], [0, 0, 0, 0, 0]])])
   \<and> main_2d (2, 3) 5 5 2 1
        [[0, 1, 0, 0, 0], [0, 0, 1, 0, 0], [1, 1, 1, 0, 0], [0, 0, 0, 0, 0], [0, 0, 0, 0, 0]]
      = Some ([[0, 0, 0, 0, 0], [0, 0, 1, 0, 0], [1, 0, 1, 0, 0], [0, 1, 1, 0, 0], [0, 0, 0, 0, 0]],
              [(0, [[0, 1, 0, 0, 0], [0, 0, 1, 0, 0], [1, 1, 1, 0, 0], [0, 0, 0, 0, 0], [0, 0, 0, 0, 0]]),
               (1, [[0, 0, 0, 0, 0], [1, 0, 1, 0, 0], [0, 1, 1, 0, 0], [0, 1, 0, 0, 0], [0, 0, 0, 0, 0]]),
               (2, [[0, 0, 0, 0, 0], [0, 0, 1, 0, 0], [1, 0, 1, 0, 0], [0, 1, 1, 0, 0], [0, 0, 0, 0, 0]]),
               (2, [[0, 0, 0, 0, 0], [0, 0, 1, 0, 0], [1, 0, 1, 0, 0], [0, 1, 1, 0, 0], [0, 0, 0, 0, 0]])])"
proof -
  define G :: grid where
    "G = [[0, 1, 0, 0, 0], [0, 0, 1, 0, 0], [1, 1, 1, 0, 0], [0, 0, 0, 0, 0], [0, 0, 0, 0, 0]]"
  have s: "shape G 5 5"
    by (simp add: shape_def G_def)
  have p: "(0::nat) < 3" "(3::nat) \<le> 5" "(0::nat) < 2" "(2::nat) \<le> 5"
    by simp_all
  have fit: "(5::nat) < 2 ^ 31 \<and> (5::nat) < 2 ^ 31 \<and> (5::nat) * 5 < 2 ^ 31"
    by simp
  have g1: "reference_step 5 5 G
            = [[0, 0, 0, 0, 0], [1, 0, 1, 0, 0], [0, 1, 1, 0, 0], [0, 1, 0, 0, 0], [0, 0, 0, 0, 0]]"
    unfolding G_def by code_simp
  have g2: "reference_step 5 5
              [[0, 0, 0, 0, 0], [1, 0, 1, 0, 0], [0, 1, 1, 0, 0], [0, 1, 0, 0, 0], [0, 0, 0, 0, 0]]
            = [[0, 0, 0, 0, 0], [0, 0, 1, 0, 0], [1, 0, 1, 0, 0], [0, 1, 1, 0, 0], [0, 0, 0, 0, 0]]"
    by code_simp
  have st: "snapshot_steps (Suc 0) 0 2 = [Suc 0, 2]"
    by code_simp
  have two: "(reference_step 5 5 ^^ 2) G = reference_step 5 5 (reference_step 5 5 G)"
    by (simp add: numeral_2_eq_2)
  note t = distributed_equals_sequential [OF s p(1) p(2) p(3) p(1) p(4) p(2), of 2 1]
  have a: "main_1d 3 5 5 2 1 G
           = Inr ((reference_step 5 5 ^^ 2) G,
                  (if 0 < (1::nat) then [(0, G)] else [])
                  @ map (\<lambda>k. (k, (reference_step 5 5 ^^ k) G)) (snapshot_steps 1 0 2)
                  @ [(2, (reference_step 5 5 ^^ 2) G)])"
    by (rule t [THEN conjunct1, rule_format, OF fit])
  have b: "main_2d (2, 3) 5 5 2 1 G
           = Some ((reference_step 5 5 ^^ 2) G,
                  (if 0 < (1::nat) then [(0, G)] else [])
                  @ map (\<lambda>k. (k, (reference_step 5 5 ^^ k) G)) (snapshot_steps 1 0 2)
                  @ [(2, (reference_step 5 5 ^^ 2) G)])"
    by (rule t [THEN conjunct2, THEN conjunct2])
  show ?thesis
    using s a b by (simp add: st two g1 g2 G_def [symmetric])
qed

section \<open>Halo consistency after the exchange\<close>

lemma exchange_1d_halo_rows:
  assumes "0 < nprocs" and "\<forall>r<nprocs. length (locals ! r) = row_count ny nprocs r + 2"
  shows "\<exists>locals'. exchange_halo_all locals nprocs = Some locals' \<and> length locals' = nprocs
           \<and> (\<forall>r<nprocs.
                 length (locals' ! r) = length (locals ! r)
               \<and> locals' ! r ! 0
                 = locals ! top_neighbor r nprocs ! row_count ny nprocs (top_neighbor r nprocs)
               \<and> locals' ! r ! (row_count ny nprocs r + 1) = locals ! bottom_neighbor r nprocs ! 1
               \<and> (\<forall>k. 1 \<le> k \<and> k \<le> row_count ny nprocs r \<longrightarrow> locals' ! r ! k = locals ! r ! k))"
proof -
  define locals' where
    "locals' = map (\<lambda>r. (locals ! r)
                 [0 := locals ! top_neighbor r nprocs ! (length (locals ! top_neighbor r nprocs) - 2),
                  length (locals ! r) - 1 := locals ! bottom_neighbor r nprocs ! 1])
               [0..<nprocs]"
  have ex: "exchange_halo_all locals nprocs = Some locals'"
    by (simp add: exchange_halo_all_eq locals'_def)
  have rows: "length (locals' ! r) = length (locals ! r)
               \<and> locals' ! r ! 0
                 = locals ! top_neighbor r nprocs ! row_count ny nprocs (top_neighbor r nprocs)
               \<and> locals' ! r ! (row_count ny nprocs r + 1) = locals ! bottom_neighbor r nprocs ! 1
               \<and> (\<forall>k. 1 \<le> k \<and> k \<le> row_count ny nprocs r \<longrightarrow> locals' ! r ! k = locals ! r ! k)"
    if r: "r < nprocs" for r
  proof -
    have l: "length (locals ! r) = row_count ny nprocs r + 2"
      using assms(2) r by simp
    have lt: "length (locals ! top_neighbor r nprocs) - 2 = row_count ny nprocs (top_neighbor r nprocs)"
      using assms(2) top_neighbor_less [OF assms(1), of r] by simp
    have n: "locals' ! r = (locals ! r)
               [0 := locals ! top_neighbor r nprocs ! row_count ny nprocs (top_neighbor r nprocs),
                row_count ny nprocs r + 1 := locals ! bottom_neighbor r nprocs ! 1]"
      using r l lt by (simp add: locals'_def)
    show ?thesis
      using l by (simp add: n)
  qed
  show ?thesis
    using ex rows by (intro exI [of _ locals']) (simp add: locals'_def)
qed

lemma exchange_2d_halo_cells:
  assumes "shaped_2d ny nx (Py, Px) locals" and py: "py < Py" and px: "px < Px"
  shows "\<exists>locals'. exchange_halo_2d_all locals (Py, Px) = Some locals'
           \<and> shaped_2d ny nx (Py, Px) locals'
           \<and> (\<forall>b. 1 \<le> b \<and> b \<le> row_count nx Px px \<longrightarrow>
                 locals' ! Get_cart_rank (Py, Px) (py, px) ! 0 ! b
                 = locals ! north (neighbours_of (Py, Px) (Get_cart_rank (Py, Px) (py, px)))
                     ! row_count ny Py (top_neighbor py Py) ! b
               \<and> locals' ! Get_cart_rank (Py, Px) (py, px) ! (row_count ny Py py + 1) ! b
                 = locals ! south (neighbours_of (Py, Px) (Get_cart_rank (Py, Px) (py, px))) ! 1 ! b)
           \<and> (\<forall>a. 1 \<le> a \<and> a \<le> row_count ny Py py \<longrightarrow>
                 locals' ! Get_cart_rank (Py, Px) (py, px) ! a ! 0
                 = locals ! west (neighbours_of (Py, Px) (Get_cart_rank (Py, Px) (py, px)))
                     ! a ! row_count nx Px (top_neighbor px Px)
               \<and> locals' ! Get_cart_rank (Py, Px) (py, px) ! a ! (row_count nx Px px + 1)
                 = locals ! east (neighbours_of (Py, Px) (Get_cart_rank (Py, Px) (py, px))) ! a ! 1)
           \<and> locals' ! Get_cart_rank (Py, Px) (py, px) ! 0 ! 0
               = locals ! nw (neighbours_of (Py, Px) (Get_cart_rank (Py, Px) (py, px)))
                   ! row_count ny Py (top_neighbor py Py) ! row_count nx Px (top_neighbor px Px)
           \<and> locals' ! Get_cart_rank (Py, Px) (py, px) ! 0 ! (row_count nx Px px + 1)
               = locals ! ne (neighbours_of (Py, Px) (Get_cart_rank (Py, Px) (py, px)))
                   ! row_count ny Py (top_neighbor py Py) ! 1
           \<and> locals' ! Get_cart_rank (Py, Px) (py, px) ! (row_count ny Py py + 1) ! 0
               = locals ! sw (neighbours_of (Py, Px) (Get_cart_rank (Py, Px) (py, px)))
                   ! 1 ! row_count nx Px (top_neighbor px Px)
           \<and> locals' ! Get_cart_rank (Py, Px) (py, px) ! (row_count ny Py py + 1)
                   ! (row_count nx Px px + 1)
               = locals ! se (neighbours_of (Py, Px) (Get_cart_rank (Py, Px) (py, px))) ! 1 ! 1
           \<and> (\<forall>a b. 1 \<le> a \<and> a \<le> row_count ny Py py \<and> 1 \<le> b \<and> b \<le> row_count nx Px px \<longrightarrow>
                 locals' ! Get_cart_rank (Py, Px) (py, px) ! a ! b
                 = locals ! Get_cart_rank (Py, Px) (py, px) ! a ! b)"
proof -
  define R where "R = row_count ny Py py"
  define C where "C = row_count nx Px px"
  define r where "r = Get_cart_rank (Py, Px) (py, px)"
  obtain locals' where ex: "exchange_halo_2d_all locals (Py, Px) = Some locals'"
    by (simp add: exchange_halo_2d_all_eq)
  have sh: "shaped_2d ny nx (Py, Px) locals'"
    by (rule exchange_2d_keeps_shape [OF assms(1) ex])
  have nb: "neighbours_of (Py, Px) r =
    \<lparr>north = Get_cart_rank (Py, Px) (top_neighbor py Py, px),
     south = Get_cart_rank (Py, Px) (bottom_neighbor py Py, px),
     west = Get_cart_rank (Py, Px) (py, top_neighbor px Px),
     east = Get_cart_rank (Py, Px) (py, bottom_neighbor px Px),
     nw = Get_cart_rank (Py, Px) (top_neighbor py Py, top_neighbor px Px),
     ne = Get_cart_rank (Py, Px) (top_neighbor py Py, bottom_neighbor px Px),
     sw = Get_cart_rank (Py, Px) (bottom_neighbor py Py, top_neighbor px Px),
     se = Get_cart_rank (Py, Px) (bottom_neighbor py Py, bottom_neighbor px Px)\<rparr>"
    unfolding r_def by (rule neighbours_of_coords [OF px])
  have cell: "locals' ! r ! a ! b
              = locals ! Get_cart_rank (Py, Px) (source_proc ny Py py a, source_proc nx Px px b)
                  ! source_index ny Py py a ! source_index nx Px px b"
    if "a \<le> R + 1" and "b \<le> C + 1" for a b
    using exchanged_patch_cells [OF assms(1) py px] that
      exchange_halo_2d_all_patch(1) [OF ex py px]
    by (simp add: patch_of_def r_def R_def C_def)
  have north_south: "locals' ! r ! 0 ! b = locals ! north (neighbours_of (Py, Px) r)
                         ! row_count ny Py (top_neighbor py Py) ! b
                   \<and> locals' ! r ! (R + 1) ! b = locals ! south (neighbours_of (Py, Px) r) ! 1 ! b"
    if "1 \<le> b \<and> b \<le> C" for b
    using cell [of 0 b] cell [of "R + 1" b] that
    by (simp add: nb source_proc_def source_index_def R_def C_def)
  have west_east: "locals' ! r ! a ! 0 = locals ! west (neighbours_of (Py, Px) r)
                         ! a ! row_count nx Px (top_neighbor px Px)
                   \<and> locals' ! r ! a ! (C + 1) = locals ! east (neighbours_of (Py, Px) r) ! a ! 1"
    if "1 \<le> a \<and> a \<le> R" for a
    using cell [of a 0] cell [of a "C + 1"] that
    by (simp add: nb source_proc_def source_index_def R_def C_def)
  have corners:
    "locals' ! r ! 0 ! 0 = locals ! nw (neighbours_of (Py, Px) r)
         ! row_count ny Py (top_neighbor py Py) ! row_count nx Px (top_neighbor px Px)"
    "locals' ! r ! 0 ! (C + 1) = locals ! ne (neighbours_of (Py, Px) r)
         ! row_count ny Py (top_neighbor py Py) ! 1"
    "locals' ! r ! (R + 1) ! 0 = locals ! sw (neighbours_of (Py, Px) r)
         ! 1 ! row_count nx Px (top_neighbor px Px)"
    "locals' ! r ! (R + 1) ! (C + 1) = locals ! se (neighbours_of (Py, Px) r) ! 1 ! 1"
    using cell [of 0 0] cell [of 0 "C + 1"] cell [of "R + 1" 0] cell [of "R + 1" "C + 1"]
    by (simp_all add: nb source_proc_def source_index_def R_def C_def)
  have inner: "locals' ! r ! a ! b = locals ! r ! a ! b"
    if "1 \<le> a \<and> a \<le> R \<and> 1 \<le> b \<and> b \<le> C" for a b
    using cell [of a b] that
    by (simp add: source_proc_def source_index_def R_def C_def r_def)
  show ?thesis
    unfolding R_def [symmetric] C_def [symmetric] r_def [symmetric]
    using ex sh north_south west_east corners inner
    by (intro exI [of _ locals'] conjI allI impI) blast+
qed

text \<open>
  C3, for patches none of which is empty: right after the halo exchange every halo cell
  of every rank equals the owned interior cell of the neighbour that the periodic
  topology names. The patches have the planned shapes and none is empty
  (\<open>nprocs \<le> ny\<close>, \<open>Py \<le> ny\<close>, \<open>Px \<le> nx\<close>); the exchange completes on all ranks. 1-D: the top halo row of rank \<open>r\<close> is the last owned row of
  \<open>(r - 1) mod nprocs\<close>, the bottom halo row is the first owned row of
  \<open>(r + 1) mod nprocs\<close>, and the owned rows are unchanged. 2-D: the north and south halo
  rows, the west and east halo columns and the four corners of the patch at \<open>(py, px)\<close> are
  the facing edge rows, edge columns and corner cells of the interiors of its eight
  neighbours, and the interior is unchanged. With one process every neighbour is the rank
  itself and the same equations hold as copies within the one patch.
\<close>

theorem halo_consistency:
  assumes "0 < nprocs" and "nprocs \<le> ny"
      and "\<forall>r<nprocs. length (strips ! r) = row_count ny nprocs r + 2"
      and "shaped_2d ny nx (Py, Px) locals" and "Py \<le> ny" and "Px \<le> nx"
      and "py < Py" and "px < Px"
  shows "(\<exists>strips'. exchange_halo_all strips nprocs = Some strips' \<and> length strips' = nprocs
           \<and> (\<forall>r<nprocs.
                 length (strips' ! r) = length (strips ! r)
               \<and> 0 < row_count ny nprocs (top_neighbor r nprocs)
               \<and> 0 < row_count ny nprocs (bottom_neighbor r nprocs)
               \<and> strips' ! r ! 0
                 = strips ! top_neighbor r nprocs ! row_count ny nprocs (top_neighbor r nprocs)
               \<and> strips' ! r ! (row_count ny nprocs r + 1) = strips ! bottom_neighbor r nprocs ! 1
               \<and> (\<forall>k. 1 \<le> k \<and> k \<le> row_count ny nprocs r \<longrightarrow> strips' ! r ! k = strips ! r ! k)))
       \<and> (\<exists>locals'. exchange_halo_2d_all locals (Py, Px) = Some locals'
           \<and> shaped_2d ny nx (Py, Px) locals'
           \<and> (\<forall>b. 1 \<le> b \<and> b \<le> row_count nx Px px \<longrightarrow>
                 locals' ! Get_cart_rank (Py, Px) (py, px) ! 0 ! b
                 = locals ! north (neighbours_of (Py, Px) (Get_cart_rank (Py, Px) (py, px)))
                     ! row_count ny Py (top_neighbor py Py) ! b
               \<and> locals' ! Get_cart_rank (Py, Px) (py, px) ! (row_count ny Py py + 1) ! b
                 = locals ! south (neighbours_of (Py, Px) (Get_cart_rank (Py, Px) (py, px))) ! 1 ! b)
           \<and> (\<forall>a. 1 \<le> a \<and> a \<le> row_count ny Py py \<longrightarrow>
                 locals' ! Get_cart_rank (Py, Px) (py, px) ! a ! 0
                 = locals ! west (neighbours_of (Py, Px) (Get_cart_rank (Py, Px) (py, px)))
                     ! a ! row_count nx Px (top_neighbor px Px)
               \<and> locals' ! Get_cart_rank (Py, Px) (py, px) ! a ! (row_count nx Px px + 1)
                 = locals ! east (neighbours_of (Py, Px) (Get_cart_rank (Py, Px) (py, px))) ! a ! 1)
           \<and> locals' ! Get_cart_rank (Py, Px) (py, px) ! 0 ! 0
               = locals ! nw (neighbours_of (Py, Px) (Get_cart_rank (Py, Px) (py, px)))
                   ! row_count ny Py (top_neighbor py Py) ! row_count nx Px (top_neighbor px Px)
           \<and> locals' ! Get_cart_rank (Py, Px) (py, px) ! 0 ! (row_count nx Px px + 1)
               = locals ! ne (neighbours_of (Py, Px) (Get_cart_rank (Py, Px) (py, px)))
                   ! row_count ny Py (top_neighbor py Py) ! 1
           \<and> locals' ! Get_cart_rank (Py, Px) (py, px) ! (row_count ny Py py + 1) ! 0
               = locals ! sw (neighbours_of (Py, Px) (Get_cart_rank (Py, Px) (py, px)))
                   ! 1 ! row_count nx Px (top_neighbor px Px)
           \<and> locals' ! Get_cart_rank (Py, Px) (py, px) ! (row_count ny Py py + 1)
                   ! (row_count nx Px px + 1)
               = locals ! se (neighbours_of (Py, Px) (Get_cart_rank (Py, Px) (py, px))) ! 1 ! 1
           \<and> (\<forall>a b. 1 \<le> a \<and> a \<le> row_count ny Py py \<and> 1 \<le> b \<and> b \<le> row_count nx Px px \<longrightarrow>
                 locals' ! Get_cart_rank (Py, Px) (py, px) ! a ! b
                 = locals ! Get_cart_rank (Py, Px) (py, px) ! a ! b))
       \<and> neighbours_of (Py, Px) (Get_cart_rank (Py, Px) (py, px)) =
           \<lparr>north = Get_cart_rank (Py, Px) (top_neighbor py Py, px),
            south = Get_cart_rank (Py, Px) (bottom_neighbor py Py, px),
            west = Get_cart_rank (Py, Px) (py, top_neighbor px Px),
            east = Get_cart_rank (Py, Px) (py, bottom_neighbor px Px),
            nw = Get_cart_rank (Py, Px) (top_neighbor py Py, top_neighbor px Px),
            ne = Get_cart_rank (Py, Px) (top_neighbor py Py, bottom_neighbor px Px),
            sw = Get_cart_rank (Py, Px) (bottom_neighbor py Py, top_neighbor px Px),
            se = Get_cart_rank (Py, Px) (bottom_neighbor py Py, bottom_neighbor px Px)\<rparr>
       \<and> 0 < row_count ny Py (top_neighbor py Py) \<and> 0 < row_count ny Py (bottom_neighbor py Py)
       \<and> 0 < row_count nx Px (top_neighbor px Px) \<and> 0 < row_count nx Px (bottom_neighbor px Px)
       \<and> top_neighbor 0 1 = 0 \<and> bottom_neighbor 0 1 = 0
       \<and> neighbours_of (1, 1) 0
           = \<lparr>north = 0, south = 0, west = 0, east = 0, nw = 0, ne = 0, sw = 0, se = 0\<rparr>"
proof -
  have Py: "0 < Py" and Px: "0 < Px"
    using assms(7,8) by simp_all
  have one: "\<exists>strips'. exchange_halo_all strips nprocs = Some strips' \<and> length strips' = nprocs
           \<and> (\<forall>r<nprocs.
                 length (strips' ! r) = length (strips ! r)
               \<and> 0 < row_count ny nprocs (top_neighbor r nprocs)
               \<and> 0 < row_count ny nprocs (bottom_neighbor r nprocs)
               \<and> strips' ! r ! 0
                 = strips ! top_neighbor r nprocs ! row_count ny nprocs (top_neighbor r nprocs)
               \<and> strips' ! r ! (row_count ny nprocs r + 1) = strips ! bottom_neighbor r nprocs ! 1
               \<and> (\<forall>k. 1 \<le> k \<and> k \<le> row_count ny nprocs r \<longrightarrow> strips' ! r ! k = strips ! r ! k))"
    using exchange_1d_halo_rows [OF assms(1,3)] row_count_pos [OF assms(1,2)] by blast
  have pos: "0 < row_count ny Py (top_neighbor py Py)" "0 < row_count ny Py (bottom_neighbor py Py)"
    "0 < row_count nx Px (top_neighbor px Px)" "0 < row_count nx Px (bottom_neighbor px Px)"
    using row_count_pos [OF Py assms(5)] row_count_pos [OF Px assms(6)] by simp_all
  have single: "top_neighbor 0 1 = 0" "bottom_neighbor 0 1 = 0"
    "neighbours_of (1, 1) 0
           = \<lparr>north = 0, south = 0, west = 0, east = 0, nw = 0, ne = 0, sw = 0, se = 0\<rparr>"
    by (simp_all add: top_neighbor_def bottom_neighbor_def neighbours_of_def Shift_def
        Get_coords_def Get_cart_rank_def)
  show ?thesis
    by (intro conjI one exchange_2d_halo_cells [OF assms(4,7,8)]
        neighbours_of_coords [OF assms(8)] pos single)
qed

theorem halo_consistency_witness:
  "(0::nat) < 2 \<and> (2::nat) \<le> 2
   \<and> length ([[[0, 0], [1, 2], [0, 0]], [[0, 0], [3, 4], [0, 0]]] ! 0) = row_count 2 2 0 + 2
   \<and> length ([[[0, 0], [1, 2], [0, 0]], [[0, 0], [3, 4], [0, 0]]] ! 1) = row_count 2 2 1 + 2
   \<and> shaped_2d 2 2 (1, 1) [[[0, 0, 0, 0], [0, 1, 2, 0], [0, 3, 4, 0], [0, 0, 0, 0]]]
   \<and> (1::nat) \<le> 2 \<and> (0::nat) < 1
   \<and> exchange_halo_all [[[0, 0], [1, 2], [0, 0]], [[0, 0], [3, 4], [0, 0]]] 2
       = Some [[[3, 4], [1, 2], [3, 4]], [[1, 2], [3, 4], [1, 2]]]
   \<and> exchange_halo_2d_all [[[0, 0, 0, 0], [0, 1, 2, 0], [0, 3, 4, 0], [0, 0, 0, 0]]] (1, 1)
       = Some [[[4, 3, 4, 3], [2, 1, 2, 1], [4, 3, 4, 3], [2, 1, 2, 1]]]"
proof -
  define S :: "grid list" where
    "S = [[[0, 0], [1, 2], [0, 0]], [[0, 0], [3, 4], [0, 0]]]"
  define L :: "grid list" where
    "L = [[[0, 0, 0, 0], [0, 1, 2, 0], [0, 3, 4, 0], [0, 0, 0, 0]]]"
  have n: "(0::nat) < 2" "(2::nat) \<le> 2" "(1::nat) \<le> 2" "(0::nat) < 1"
    by simp_all
  have s0: "length (S ! 0) = row_count 2 2 0 + 2" and s1: "length (S ! 1) = row_count 2 2 1 + 2"
    by (simp_all add: S_def row_count_def)
  have strips: "\<forall>r<2. length (S ! r) = row_count 2 2 r + 2"
    using s0 s1 by (simp add: less_2_cases_iff)
  have shaped: "shaped_2d 2 2 (1, 1) L"
    by (simp add: shaped_2d_def patch_of_def Get_cart_rank_def row_count_def shape_def L_def)
  have e1: "exchange_halo_all S 2 = Some [[[3, 4], [1, 2], [3, 4]], [[1, 2], [3, 4], [1, 2]]]"
    unfolding S_def by code_simp
  from halo_consistency [OF n(1) n(2) strips shaped n(3) n(3) n(4) n(4)]
  obtain L' where e2: "exchange_halo_2d_all L (1, 1) = Some L'"
    and sh: "shaped_2d 2 2 (1, 1) L'"
    by blast
  have "exchange_halo_2d_all L (1, 1)
        = Some [[[4, 3, 4, 3], [2, 1, 2, 1], [4, 3, 4, 3], [2, 1, 2, 1]]]"
    unfolding L_def by code_simp
  then show ?thesis
    using n s0 s1 shaped e1 e2 by (simp add: S_def L_def)
qed

text \<open>
  Without the condition the claim fails. Three processes on a grid of two rows: rank 2
  owns no row, and its patch is its two halo rows. After the exchange the top halo row of
  rank 0 and the bottom halo row of rank 1, which face rank 2, hold \<open>[0, 0, 0]\<close>: the
  halo rows rank 2 had, not an owned row of rank 2 (there is none) or of any rank.
\<close>

theorem empty_strip_breaks_halo:
  "scatter_1d 3 2 3 [[1, 1, 1], [0, 1, 0]]
     = Inr [[[0, 0, 0], [1, 1, 1], [0, 0, 0]], [[0, 0, 0], [0, 1, 0], [0, 0, 0]],
            [[0, 0, 0], [0, 0, 0]]]
   \<and> exchange_halo_all [[[0, 0, 0], [1, 1, 1], [0, 0, 0]], [[0, 0, 0], [0, 1, 0], [0, 0, 0]],
                          [[0, 0, 0], [0, 0, 0]]] 3
     = Some [[[0, 0, 0], [1, 1, 1], [0, 1, 0]], [[1, 1, 1], [0, 1, 0], [0, 0, 0]],
             [[0, 1, 0], [1, 1, 1]]]
   \<and> top_neighbor 0 3 = 2 \<and> bottom_neighbor 1 3 = 2
   \<and> row_count 2 3 2 = 0 \<and> interior_rows [[0, 0, 0], [0, 0, 0]] = []
   \<and> concat (map interior_rows
         [[[0, 0, 0], [1, 1, 1], [0, 0, 0]], [[0, 0, 0], [0, 1, 0], [0, 0, 0]],
          [[0, 0, 0], [0, 0, 0]]])
     = [[1, 1, 1], [0, 1, 0]]"
  by code_simp

section \<open>A run with an empty patch\<close>

text \<open>
  C7 asks for a configuration error when a patch would be empty. Neither program checks
  its configuration. Three processes on a grid of two rows and three columns, one step:
  the plan gives one row to ranks 0 and 1 and none to rank 2, the 1-D run and the 2-D
  run on a \<open>3 \<times> 1\<close> process grid raise nothing, go through the step and return a grid,
  and that grid is not the one the global rule gives. The two initial grids are the one
  \<open>initialize_grid\<close> makes for the pattern \<open>glider\<close> on these dimensions,
  \<open>[[1, 1, 1], [1, 0, 0]]\<close>, and \<open>[[1, 1, 1], [0, 0, 0]]\<close>.
\<close>

theorem empty_patch_run_diverges:
  "map (row_count 2 3) [0, 1, 2] = [1, 1, 0]
   \<and> main_1d 3 2 3 1 0 [[1, 1, 1], [1, 0, 0]]
       = Inr ([[1, 1, 1], [1, 0, 0]], [(1, [[1, 1, 1], [1, 0, 0]])])
   \<and> main_2d (3, 1) 2 3 1 0 [[1, 1, 1], [1, 0, 0]]
       = Some ([[1, 1, 1], [1, 0, 0]], [(1, [[1, 1, 1], [1, 0, 0]])])
   \<and> reference_step 2 3 [[1, 1, 1], [1, 0, 0]] = [[0, 0, 0], [0, 0, 0]]
   \<and> main_1d 3 2 3 1 0 [[1, 1, 1], [0, 0, 0]]
       = Inr ([[1, 1, 1], [1, 1, 1]], [(1, [[1, 1, 1], [1, 1, 1]])])
   \<and> main_2d (3, 1) 2 3 1 0 [[1, 1, 1], [0, 0, 0]]
       = Some ([[1, 1, 1], [1, 1, 1]], [(1, [[1, 1, 1], [1, 1, 1]])])
   \<and> reference_step 2 3 [[1, 1, 1], [0, 0, 0]] = [[1, 1, 1], [0, 0, 0]]"
  by code_simp

section \<open>Toroidal symmetry\<close>

lemma translate_shape: "shape (translate ny nx dy dx G) ny nx"
  by (simp add: translate_def shape_def list_all_length)

lemma translate_cell:
  "y < ny \<Longrightarrow> x < nx \<Longrightarrow>
   translate ny nx dy dx G ! y ! x
   = G ! nat ((int y - dy) mod int ny) ! nat ((int x - dx) mod int nx)"
  by (simp add: translate_def)

lemma wrap_less: "0 < n \<Longrightarrow> nat (k mod int n) < n"
  by (simp add: nat_less_iff)

lemma wrap_int: "0 < n \<Longrightarrow> int (nat (k mod int n)) = k mod int n"
  by simp

lemma reference_step_translate:
  "reference_step ny nx (translate ny nx dy dx G)
   = translate ny nx dy dx (reference_step ny nx G)"
proof (rule grid_eqI [where r = ny and c = nx])
  show "shape (reference_step ny nx (translate ny nx dy dx G)) ny nx"
    by (rule reference_step_shape)
  show "shape (translate ny nx dy dx (reference_step ny nx G)) ny nx"
    by (rule translate_shape)
next
  fix y x
  assume y: "y < ny" and x: "x < nx"
  then have ny: "0 < ny" and nx: "0 < nx"
    by simp_all
  define T where "T = translate ny nx dy dx G"
  define y' where "y' = nat ((int y - dy) mod int ny)"
  define x' where "x' = nat ((int x - dx) mod int nx)"
  have y': "y' < ny" and x': "x' < nx"
    unfolding y'_def x'_def using ny nx by (simp_all add: wrap_less)
  have centre: "T ! y ! x = G ! y' ! x'"
    unfolding T_def y'_def x'_def by (rule translate_cell [OF y x])
  have sums: "map (cell_at T) (torus_reads ny nx y x) = map (cell_at G) (torus_reads ny nx y' x')"
    unfolding torus_reads_def map_map
  proof (rule map_cong [OF refl])
    fix off
    assume "off \<in> set stencil_offsets"
    obtain di dj where off: "off = (di, dj)"
      by (cases off)
    define a where "a = nat ((int y + di) mod int ny)"
    define b where "b = nat ((int x + dj) mod int nx)"
    have a: "a < ny" and b: "b < nx"
      unfolding a_def b_def using ny nx by (simp_all add: wrap_less)
    have "(int a - dy) mod int ny = (int y + di - dy) mod int ny"
      unfolding a_def using ny by (simp add: mod_diff_left_eq)
    also have "\<dots> = (int y - dy + di) mod int ny"
      by (simp add: algebra_simps)
    also have "\<dots> = (int y' + di) mod int ny"
      unfolding y'_def using ny by (simp add: mod_add_left_eq)
    finally have row: "(int a - dy) mod int ny = (int y' + di) mod int ny" .
    have "(int b - dx) mod int nx = (int x + dj - dx) mod int nx"
      unfolding b_def using nx by (simp add: mod_diff_left_eq)
    also have "\<dots> = (int x - dx + dj) mod int nx"
      by (simp add: algebra_simps)
    also have "\<dots> = (int x' + dj) mod int nx"
      unfolding x'_def using nx by (simp add: mod_add_left_eq)
    finally have col: "(int b - dx) mod int nx = (int x' + dj) mod int nx" .
    have "T ! a ! b = G ! nat ((int a - dy) mod int ny) ! nat ((int b - dx) mod int nx)"
      unfolding T_def by (rule translate_cell [OF a b])
    then have "T ! a ! b = G ! nat ((int y' + di) mod int ny) ! nat ((int x' + dj) mod int nx)"
      by (simp only: row col)
    then show "(cell_at T \<circ> (\<lambda>(dy, dx). (nat ((int y + dy) mod int ny), nat ((int x + dx) mod int nx)))) off
             = (cell_at G \<circ> (\<lambda>(dy, dx). (nat ((int y' + dy) mod int ny), nat ((int x' + dx) mod int nx)))) off"
      by (simp add: off cell_at_def a_def b_def)
  qed
  have "reference_step ny nx T ! y ! x
        = update_cell (T ! y ! x) (sum_list (map (cell_at T) (torus_reads ny nx y x)))"
    by (rule reference_step_cell [OF y x])
  also have "\<dots> = update_cell (G ! y' ! x') (sum_list (map (cell_at G) (torus_reads ny nx y' x')))"
    by (simp only: centre sums)
  also have "\<dots> = reference_step ny nx G ! y' ! x'"
    by (rule reference_step_cell [OF y' x', symmetric])
  also have "\<dots> = translate ny nx dy dx (reference_step ny nx G) ! y ! x"
    unfolding y'_def x'_def by (rule translate_cell [OF y x, symmetric])
  finally show "reference_step ny nx (translate ny nx dy dx G) ! y ! x
                = translate ny nx dy dx (reference_step ny nx G) ! y ! x"
    by (simp only: T_def)
qed

lemma reference_steps_translate:
  "(reference_step ny nx ^^ k) (translate ny nx dy dx G)
   = translate ny nx dy dx ((reference_step ny nx ^^ k) G)"
  by (induction k) (simp_all add: reference_step_translate)

text \<open>
  C9: translating the initial grid by \<open>(dy, dx)\<close> modulo \<open>(ny, nx)\<close> translates the state
  after \<open>k\<close> steps by the same offset: for \<open>k\<close> applications of the global rule, and for
  the grid a valid 1-D or 2-D run returns after \<open>k\<close> steps (for the 1-D program, whose
  dimensions and buffer sizes are \<open>int32\<close> values, on grids with \<open>ny\<close>, \<open>nx\<close> and
  \<open>ny * nx\<close> below \<open>2 ^ 31\<close>).
\<close>

theorem toroidal_symmetry:
  assumes "shape G ny nx"
      and "0 < nprocs" and "nprocs \<le> ny"
      and "0 < Py" and "0 < Px" and "Py \<le> ny" and "Px \<le> nx"
  shows "(reference_step ny nx ^^ k) (translate ny nx dy dx G)
         = translate ny nx dy dx ((reference_step ny nx ^^ k) G)
       \<and> (ny < 2 ^ 31 \<and> nx < 2 ^ 31 \<and> ny * nx < 2 ^ 31 \<longrightarrow>
            (\<exists>res res'. main_1d nprocs ny nx k save_interval G = Inr res
               \<and> main_1d nprocs ny nx k save_interval (translate ny nx dy dx G) = Inr res'
               \<and> fst res' = translate ny nx dy dx (fst res)))
       \<and> map_option fst (main_2d (Py, Px) ny nx k save_interval (translate ny nx dy dx G))
         = map_option (\<lambda>res. translate ny nx dy dx (fst res))
             (main_2d (Py, Px) ny nx k save_interval G)
       \<and> main_2d (Py, Px) ny nx k save_interval G \<noteq> None"
proof -
  have c1: "(reference_step ny nx ^^ k) (translate ny nx dy dx G)
            = translate ny nx dy dx ((reference_step ny nx ^^ k) G)"
    by (rule reference_steps_translate)
  have c2: "ny < 2 ^ 31 \<and> nx < 2 ^ 31 \<and> ny * nx < 2 ^ 31 \<longrightarrow>
            (\<exists>res res'. main_1d nprocs ny nx k save_interval G = Inr res
               \<and> main_1d nprocs ny nx k save_interval (translate ny nx dy dx G) = Inr res'
               \<and> fst res' = translate ny nx dy dx (fst res))"
  proof
    assume fit: "ny < 2 ^ 31 \<and> nx < 2 ^ 31 \<and> ny * nx < 2 ^ 31"
    then have f: "ny < 2 ^ 31" "ny * nx < 2 ^ 31"
      by simp_all
    show "\<exists>res res'. main_1d nprocs ny nx k save_interval G = Inr res
               \<and> main_1d nprocs ny nx k save_interval (translate ny nx dy dx G) = Inr res'
               \<and> fst res' = translate ny nx dy dx (fst res)"
      by (simp add: main_1d_result [OF assms(1,2,3) f]
          main_1d_result [OF translate_shape assms(2,3) f] reference_steps_translate)
  qed
  have c3: "map_option fst (main_2d (Py, Px) ny nx k save_interval (translate ny nx dy dx G))
         = map_option (\<lambda>res. translate ny nx dy dx (fst res))
             (main_2d (Py, Px) ny nx k save_interval G)"
    by (simp add: main_2d_result [OF assms(1,4,5,6,7)]
        main_2d_result [OF translate_shape assms(4,5,6,7)] reference_steps_translate)
  have c4: "main_2d (Py, Px) ny nx k save_interval G \<noteq> None"
    by (simp add: main_2d_result [OF assms(1,4,5,6,7)])
  show ?thesis
    by (intro conjI c1 c2 c3 c4)
qed

theorem toroidal_symmetry_witness:
  "shape [[0, 1, 0, 0], [0, 0, 1, 0], [1, 1, 1, 0], [0, 0, 0, 0]] 4 4
   \<and> (0::nat) < 2 \<and> (2::nat) \<le> 4 \<and> (4::nat) < 2 ^ 31 \<and> (4::nat) < 2 ^ 31 \<and> (4::nat) * 4 < 2 ^ 31
   \<and> translate 4 4 1 (- 1) [[0, 1, 0, 0], [0, 0, 1, 0], [1, 1, 1, 0], [0, 0, 0, 0]]
       = [[0, 0, 0, 0], [1, 0, 0, 0], [0, 1, 0, 0], [1, 1, 0, 1]]
   \<and> (\<exists>res res'.
         main_1d 2 4 4 3 0 [[0, 1, 0, 0], [0, 0, 1, 0], [1, 1, 1, 0], [0, 0, 0, 0]] = Inr res
       \<and> main_1d 2 4 4 3 0 [[0, 0, 0, 0], [1, 0, 0, 0], [0, 1, 0, 0], [1, 1, 0, 1]] = Inr res'
       \<and> fst res' = translate 4 4 1 (- 1) (fst res))
   \<and> map_option fst (main_2d (2, 2) 4 4 3 0 [[0, 0, 0, 0], [1, 0, 0, 0], [0, 1, 0, 0], [1, 1, 0, 1]])
       = map_option (\<lambda>res. translate 4 4 1 (- 1) (fst res))
           (main_2d (2, 2) 4 4 3 0 [[0, 1, 0, 0], [0, 0, 1, 0], [1, 1, 1, 0], [0, 0, 0, 0]])"
proof -
  define G :: grid where "G = [[0, 1, 0, 0], [0, 0, 1, 0], [1, 1, 1, 0], [0, 0, 0, 0]]"
  have s: "shape G 4 4"
    by (simp add: shape_def G_def)
  have p: "(0::nat) < 2" "(2::nat) \<le> 4"
    by simp_all
  have fit: "(4::nat) < 2 ^ 31 \<and> (4::nat) < 2 ^ 31 \<and> (4::nat) * 4 < 2 ^ 31"
    by simp
  have t: "translate 4 4 1 (- 1) G = [[0, 0, 0, 0], [1, 0, 0, 0], [0, 1, 0, 0], [1, 1, 0, 1]]"
    unfolding G_def by code_simp
  note sym = toroidal_symmetry [OF s p p(1) p(1) p(2) p(2), of 3 1 "- 1" 0]
  have a: "\<exists>res res'. main_1d 2 4 4 3 0 G = Inr res
             \<and> main_1d 2 4 4 3 0 (translate 4 4 1 (- 1) G) = Inr res'
             \<and> fst res' = translate 4 4 1 (- 1) (fst res)"
    by (rule sym [THEN conjunct2, THEN conjunct1, rule_format, OF fit])
  have b: "map_option fst (main_2d (2, 2) 4 4 3 0 (translate 4 4 1 (- 1) G))
           = map_option (\<lambda>res. translate 4 4 1 (- 1) (fst res)) (main_2d (2, 2) 4 4 3 0 G)"
    by (rule sym [THEN conjunct2, THEN conjunct2, THEN conjunct1])
  show ?thesis
    using s a b unfolding t by (simp add: G_def [symmetric] t)
qed

section \<open>The global rule on grids of live rows and columns\<close>

lemma pattern_grid_shape: "shape (pattern_grid ny nx R C) ny nx"
  by (simp add: pattern_grid_def shape_def list_all_length)

lemma pattern_grid_cell:
  "y < ny \<Longrightarrow> x < nx \<Longrightarrow> pattern_grid ny nx R C ! y ! x = ind (R y) * ind (C x)"
  by (simp add: pattern_grid_def ind_def)

lemma torus_reads_eq:
  assumes "y < ny" and "x < nx"
  shows "torus_reads ny nx y x =
    [(top_neighbor y ny, top_neighbor x nx), (top_neighbor y ny, x),
     (top_neighbor y ny, bottom_neighbor x nx),
     (y, top_neighbor x nx), (y, bottom_neighbor x nx),
     (bottom_neighbor y ny, top_neighbor x nx), (bottom_neighbor y ny, x),
     (bottom_neighbor y ny, bottom_neighbor x nx)]"
proof -
  have a: "nat (int y mod int ny) = y" "nat (int x mod int nx) = x"
    using assms by (simp_all add: nat_mod_distrib)
  have b: "nat ((int y + 1) mod int ny) = bottom_neighbor y ny"
    "nat ((int x + 1) mod int nx) = bottom_neighbor x nx"
    by (simp_all add: bottom_neighbor_def nat_mod_distrib nat_add_distrib)
  show ?thesis
    by (simp add: torus_reads_def stencil_offsets_eq a b top_neighbor_def)
qed

lemma pattern_neighbour_sum:
  assumes "y < ny" and "x < nx"
  shows "sum_list (map (cell_at (pattern_grid ny nx R C)) (torus_reads ny nx y x))
         = window ny R y * window nx C x - ind (R y) * ind (C x)"
proof -
  have ny: "0 < ny" and nx: "0 < nx"
    using assms by simp_all
  have t: "top_neighbor y ny < ny" "bottom_neighbor y ny < ny"
    "top_neighbor x nx < nx" "bottom_neighbor x nx < nx"
    using ny nx by (simp_all add: top_neighbor_less bottom_neighbor_less)
  show ?thesis
    using assms t
    by (simp add: torus_reads_eq cell_at_def pattern_grid_cell window_def algebra_simps)
qed

lemma pattern_step_cell:
  assumes "y < ny" and "x < nx"
  shows "reference_step ny nx (pattern_grid ny nx R C) ! y ! x
         = update_cell (ind (R y) * ind (C x))
             (window ny R y * window nx C x - ind (R y) * ind (C x))"
  using assms
  by (simp add: reference_step_cell pattern_neighbour_sum pattern_grid_cell)

lemma window_range: "0 \<le> window n S k \<and> window n S k \<le> 3"
  by (simp add: window_def ind_def)

lemma window_pair:
  assumes "3 \<le> n" and "k0 + 1 < n" and "k < n"
  shows "window n (\<lambda>a. a = k0 \<or> a = k0 + 1) k \<le> 2"
    and "k = k0 \<or> k = k0 + 1 \<Longrightarrow> window n (\<lambda>a. a = k0 \<or> a = k0 + 1) k = 2"
  using assms
  by (auto simp add: window_def ind_def top_neighbor_eq bottom_neighbor_eq)

lemma window_single:
  assumes "3 \<le> n" and "c < n" and "k < n"
  shows "window n (\<lambda>a. a = c) k = ind (near n c k)"
  using assms
  by (auto simp add: window_def ind_def near_def top_neighbor_eq bottom_neighbor_eq)

lemma window_triple:
  assumes "4 \<le> n" and "c < n" and "k < n"
  shows "k = c \<Longrightarrow> window n (near n c) k = 3"
    and "k \<noteq> c \<Longrightarrow> near n c k \<Longrightarrow> window n (near n c) k = 2"
    and "\<not> near n c k \<Longrightarrow> window n (near n c) k \<le> 2"
  using assms
  by (auto simp add: window_def ind_def near_def top_neighbor_eq bottom_neighbor_eq
      split: if_splits)

lemma block_is_still_life:
  assumes "3 \<le> ny" and "3 \<le> nx" and "y0 + 1 < ny" and "x0 + 1 < nx"
  shows "reference_step ny nx (block_grid ny nx y0 x0) = block_grid ny nx y0 x0"
  unfolding block_grid_def
proof (rule grid_eqI [where r = ny and c = nx])
  show "shape (reference_step ny nx
          (pattern_grid ny nx (\<lambda>y. y = y0 \<or> y = y0 + 1) (\<lambda>x. x = x0 \<or> x = x0 + 1))) ny nx"
    by (rule reference_step_shape)
  show "shape (pattern_grid ny nx (\<lambda>y. y = y0 \<or> y = y0 + 1) (\<lambda>x. x = x0 \<or> x = x0 + 1)) ny nx"
    by (rule pattern_grid_shape)
next
  fix y x
  assume y: "y < ny" and x: "x < nx"
  define rs where "rs = window ny (\<lambda>a. a = y0 \<or> a = y0 + 1) y"
  define cs where "cs = window nx (\<lambda>a. a = x0 \<or> a = x0 + 1) x"
  have rs: "0 \<le> rs" "rs \<le> 2" "y = y0 \<or> y = y0 + 1 \<Longrightarrow> rs = 2"
    unfolding rs_def using window_range window_pair [OF assms(1,3) y] by simp_all
  have cs: "0 \<le> cs" "cs \<le> 2" "x = x0 \<or> x = x0 + 1 \<Longrightarrow> cs = 2"
    unfolding cs_def using window_range window_pair [OF assms(2,4) x] by simp_all
  have "update_cell (ind (y = y0 \<or> y = y0 + 1) * ind (x = x0 \<or> x = x0 + 1))
          (rs * cs - ind (y = y0 \<or> y = y0 + 1) * ind (x = x0 \<or> x = x0 + 1))
        = ind (y = y0 \<or> y = y0 + 1) * ind (x = x0 \<or> x = x0 + 1)"
  proof (cases "(y = y0 \<or> y = y0 + 1) \<and> (x = x0 \<or> x = x0 + 1)")
    case True
    then have "rs = 2" "cs = 2"
      using rs(3) cs(3) by simp_all
    then show ?thesis
      using True by (simp add: ind_def update_cell_def)
  next
    case False
    then have dead: "ind (y = y0 \<or> y = y0 + 1) * ind (x = x0 \<or> x = x0 + 1) = 0"
      by (auto simp add: ind_def)
    have "rs = 0 \<or> rs = 1 \<or> rs = 2" "cs = 0 \<or> cs = 1 \<or> cs = 2"
      using rs(1,2) cs(1,2) by arith+
    then have "rs * cs \<noteq> 3"
      by auto
    then show ?thesis
      unfolding dead by (simp add: update_cell_def)
  qed
  then show "reference_step ny nx
          (pattern_grid ny nx (\<lambda>y. y = y0 \<or> y = y0 + 1) (\<lambda>x. x = x0 \<or> x = x0 + 1)) ! y ! x
        = pattern_grid ny nx (\<lambda>y. y = y0 \<or> y = y0 + 1) (\<lambda>x. x = x0 \<or> x = x0 + 1) ! y ! x"
    unfolding pattern_step_cell [OF y x] pattern_grid_cell [OF y x] rs_def cs_def .
qed

lemma blinker_columns:
  assumes "x0 + 2 < nx"
  shows "(\<lambda>x. x = x0 \<or> x = x0 + 1 \<or> x = x0 + 2) = near nx (x0 + 1)"
  using assms by (auto simp add: near_def fun_eq_iff top_neighbor_eq bottom_neighbor_eq)

lemma blinker_turns_vertical:
  assumes "3 \<le> ny" and "4 \<le> nx" and "y0 < ny" and "x0 + 2 < nx"
  shows "reference_step ny nx (blinker_grid ny nx y0 x0) = vertical_blinker_grid ny nx y0 x0"
  unfolding blinker_grid_def vertical_blinker_grid_def blinker_columns [OF assms(4)]
proof (rule grid_eqI [where r = ny and c = nx])
  show "shape (reference_step ny nx (pattern_grid ny nx (\<lambda>y. y = y0) (near nx (x0 + 1)))) ny nx"
    by (rule reference_step_shape)
  show "shape (pattern_grid ny nx (near ny y0) (\<lambda>x. x = x0 + 1)) ny nx"
    by (rule pattern_grid_shape)
next
  fix y x
  assume y: "y < ny" and x: "x < nx"
  define c where "c = x0 + 1"
  have c: "c < nx"
    using assms(4) by (simp add: c_def)
  define cs where "cs = window nx (near nx c) x"
  have rs: "window ny (\<lambda>a. a = y0) y = ind (near ny y0 y)"
    by (rule window_single [OF assms(1,3) y])
  have cs: "0 \<le> cs" "x = c \<Longrightarrow> cs = 3" "x \<noteq> c \<Longrightarrow> near nx c x \<Longrightarrow> cs = 2"
    "\<not> near nx c x \<Longrightarrow> cs \<le> 2"
    unfolding cs_def using window_range window_triple [OF assms(2) c x] by simp_all
  have self: "near nx c c" "near ny y0 y0"
    by (simp_all add: near_def)
  have "update_cell (ind (y = y0) * ind (near nx c x))
          (ind (near ny y0 y) * cs - ind (y = y0) * ind (near nx c x))
        = ind (near ny y0 y) * ind (x = c)"
  proof (cases "near ny y0 y")
    case False
    then have "y \<noteq> y0"
      using self(2) by auto
    then show ?thesis
      using False by (simp add: ind_def update_cell_def)
  next
    case True
    consider "x = c" | "x \<noteq> c" "near nx c x" | "\<not> near nx c x"
      by blast
    then show ?thesis
    proof cases
      case 1
      then show ?thesis
        using True cs(2) self(1) by (simp add: ind_def update_cell_def)
    next
      case 2
      then show ?thesis
        using True cs(3) by (simp add: ind_def update_cell_def)
    next
      case 3
      then have "x \<noteq> c"
        using self(1) by auto
      then show ?thesis
        using True 3 cs(1) cs(4) by (simp add: ind_def update_cell_def)
    qed
  qed
  then show "reference_step ny nx (pattern_grid ny nx (\<lambda>y. y = y0) (near nx (x0 + 1))) ! y ! x
        = pattern_grid ny nx (near ny y0) (\<lambda>x. x = x0 + 1) ! y ! x"
    unfolding pattern_step_cell [OF y x] pattern_grid_cell [OF y x] c_def [symmetric] rs cs_def .
qed

lemma blinker_turns_horizontal:
  assumes "4 \<le> ny" and "3 \<le> nx" and "y0 < ny" and "x0 + 2 < nx"
  shows "reference_step ny nx (vertical_blinker_grid ny nx y0 x0) = blinker_grid ny nx y0 x0"
  unfolding blinker_grid_def vertical_blinker_grid_def blinker_columns [OF assms(4)]
proof (rule grid_eqI [where r = ny and c = nx])
  show "shape (reference_step ny nx (pattern_grid ny nx (near ny y0) (\<lambda>x. x = x0 + 1))) ny nx"
    by (rule reference_step_shape)
  show "shape (pattern_grid ny nx (\<lambda>y. y = y0) (near nx (x0 + 1))) ny nx"
    by (rule pattern_grid_shape)
next
  fix y x
  assume y: "y < ny" and x: "x < nx"
  define c where "c = x0 + 1"
  have c: "c < nx"
    using assms(4) by (simp add: c_def)
  define rs where "rs = window ny (near ny y0) y"
  have cs: "window nx (\<lambda>a. a = c) x = ind (near nx c x)"
    by (rule window_single [OF assms(2) c x])
  have rs: "0 \<le> rs" "y = y0 \<Longrightarrow> rs = 3" "y \<noteq> y0 \<Longrightarrow> near ny y0 y \<Longrightarrow> rs = 2"
    "\<not> near ny y0 y \<Longrightarrow> rs \<le> 2"
    unfolding rs_def using window_range window_triple [OF assms(1,3) y] by simp_all
  have self: "near nx c c" "near ny y0 y0"
    by (simp_all add: near_def)
  have "update_cell (ind (near ny y0 y) * ind (x = c))
          (rs * ind (near nx c x) - ind (near ny y0 y) * ind (x = c))
        = ind (y = y0) * ind (near nx c x)"
  proof (cases "near nx c x")
    case False
    then have "x \<noteq> c"
      using self(1) by auto
    then show ?thesis
      using False by (simp add: ind_def update_cell_def)
  next
    case True
    consider "y = y0" | "y \<noteq> y0" "near ny y0 y" | "\<not> near ny y0 y"
      by blast
    then show ?thesis
    proof cases
      case 1
      then show ?thesis
        using True rs(2) self(2) by (simp add: ind_def update_cell_def)
    next
      case 2
      then show ?thesis
        using True rs(3) by (simp add: ind_def update_cell_def)
    next
      case 3
      then have "y \<noteq> y0"
        using self(2) by auto
      then show ?thesis
        using True 3 rs(1) rs(4) by (simp add: ind_def update_cell_def)
    qed
  qed
  then show "reference_step ny nx (pattern_grid ny nx (near ny y0) (\<lambda>x. x = x0 + 1)) ! y ! x
        = pattern_grid ny nx (\<lambda>y. y = y0) (near nx (x0 + 1)) ! y ! x"
    unfolding pattern_step_cell [OF y x] pattern_grid_cell [OF y x] c_def [symmetric] cs rs_def .
qed

lemma blinker_has_period_two:
  assumes "4 \<le> ny" and "4 \<le> nx" and "y0 < ny" and "x0 + 2 < nx"
  shows "(reference_step ny nx ^^ 2) (blinker_grid ny nx y0 x0) = blinker_grid ny nx y0 x0"
proof -
  have "3 \<le> ny" "3 \<le> nx"
    using assms(1,2) by simp_all
  then show ?thesis
    using blinker_turns_vertical [OF _ assms(2,3,4)] blinker_turns_horizontal [OF assms(1) _ assms(3,4)]
    by (simp add: numeral_2_eq_2)
qed

lemma block_grid_cell:
  assumes "y < ny" and "x < nx"
  shows "block_grid ny nx y0 x0 ! y ! x
         = (if (y = y0 \<or> y = y0 + 1) \<and> (x = x0 \<or> x = x0 + 1) then 1 else 0)"
  by (simp add: block_grid_def pattern_grid_cell [OF assms] ind_def)

lemma blinker_grid_cell:
  assumes "y < ny" and "x < nx"
  shows "blinker_grid ny nx y0 x0 ! y ! x
         = (if y = y0 \<and> (x = x0 \<or> x = x0 + 1 \<or> x = x0 + 2) then 1 else 0)"
  by (simp add: blinker_grid_def pattern_grid_cell [OF assms] ind_def)

lemma main_1d_final:
  assumes "shape G ny nx" and "0 < nprocs" and "nprocs \<le> ny"
      and "ny < 2 ^ 31" and "ny * nx < 2 ^ 31"
  shows "\<exists>snapshots. main_1d nprocs ny nx steps save_interval G
                      = Inr ((reference_step ny nx ^^ steps) G, snapshots)"
  by (simp add: main_1d_result [OF assms])

lemma main_2d_final:
  assumes "shape G ny nx" and "0 < Py" and "0 < Px" and "Py \<le> ny" and "Px \<le> nx"
  shows "map_option fst (main_2d (Py, Px) ny nx steps save_interval G)
         = Some ((reference_step ny nx ^^ steps) G)"
  by (simp add: main_2d_result [OF assms])

text \<open>
  C8: on a torus with at least three rows and three columns, a grid holding exactly a 2x2 block
  of live cells is left unchanged by one application of the global rule, and is the grid a
  valid 1-D or 2-D run returns after one step; on a torus with at least four rows and four
  columns, a grid holding exactly three live cells side by side in one row is the grid that
  two applications of the global rule, and a valid 1-D or 2-D run of two steps, return.
  The statements on the 1-D program, whose dimensions and buffer sizes are \<open>int32\<close> values,
  are for grids with \<open>ny\<close>, \<open>nx\<close> and \<open>ny * nx\<close> below \<open>2 ^ 31\<close>.
\<close>

theorem still_life_and_oscillator:
  assumes "3 \<le> ny" and "3 \<le> nx" and "y0 + 1 < ny" and "x0 + 1 < nx"
      and "0 < nprocs" and "nprocs \<le> ny"
      and "0 < Py" and "0 < Px" and "Py \<le> ny" and "Px \<le> nx"
  shows "reference_step ny nx (block_grid ny nx y0 x0) = block_grid ny nx y0 x0
       \<and> (ny < 2 ^ 31 \<and> nx < 2 ^ 31 \<and> ny * nx < 2 ^ 31 \<longrightarrow>
            (\<exists>snapshots. main_1d nprocs ny nx 1 save_interval (block_grid ny nx y0 x0)
                           = Inr (block_grid ny nx y0 x0, snapshots)))
       \<and> map_option fst (main_2d (Py, Px) ny nx 1 save_interval (block_grid ny nx y0 x0))
         = Some (block_grid ny nx y0 x0)
       \<and> (4 \<le> ny \<and> 4 \<le> nx \<and> y1 < ny \<and> x1 + 2 < nx \<longrightarrow>
            (reference_step ny nx ^^ 2) (blinker_grid ny nx y1 x1) = blinker_grid ny nx y1 x1
          \<and> (ny < 2 ^ 31 \<and> nx < 2 ^ 31 \<and> ny * nx < 2 ^ 31 \<longrightarrow>
               (\<exists>snapshots. main_1d nprocs ny nx 2 save_interval (blinker_grid ny nx y1 x1)
                              = Inr (blinker_grid ny nx y1 x1, snapshots)))
          \<and> map_option fst (main_2d (Py, Px) ny nx 2 save_interval (blinker_grid ny nx y1 x1))
            = Some (blinker_grid ny nx y1 x1))"
proof -
  have sb: "shape (block_grid ny nx y0 x0) ny nx"
    by (simp add: block_grid_def pattern_grid_shape)
  have sl: "shape (blinker_grid ny nx y1 x1) ny nx"
    by (simp add: blinker_grid_def pattern_grid_shape)
  have still: "reference_step ny nx (block_grid ny nx y0 x0) = block_grid ny nx y0 x0"
    by (rule block_is_still_life [OF assms(1,2,3,4)])
  have one: "(reference_step ny nx ^^ 1) (block_grid ny nx y0 x0) = block_grid ny nx y0 x0"
    by (simp add: still)
  have b1: "ny < 2 ^ 31 \<and> nx < 2 ^ 31 \<and> ny * nx < 2 ^ 31 \<longrightarrow>
            (\<exists>snapshots. main_1d nprocs ny nx 1 save_interval (block_grid ny nx y0 x0)
                           = Inr (block_grid ny nx y0 x0, snapshots))"
  proof
    assume "ny < 2 ^ 31 \<and> nx < 2 ^ 31 \<and> ny * nx < 2 ^ 31"
    then have f: "ny < 2 ^ 31" "ny * nx < 2 ^ 31"
      by simp_all
    show "\<exists>snapshots. main_1d nprocs ny nx 1 save_interval (block_grid ny nx y0 x0)
                           = Inr (block_grid ny nx y0 x0, snapshots)"
      using main_1d_final [OF sb assms(5,6) f, of 1 save_interval] by (simp only: one)
  qed
  have b2: "map_option fst (main_2d (Py, Px) ny nx 1 save_interval (block_grid ny nx y0 x0))
            = Some (block_grid ny nx y0 x0)"
    by (simp only: main_2d_final [OF sb assms(7,8,9,10)] one)
  have osc: "4 \<le> ny \<and> 4 \<le> nx \<and> y1 < ny \<and> x1 + 2 < nx \<longrightarrow>
            (reference_step ny nx ^^ 2) (blinker_grid ny nx y1 x1) = blinker_grid ny nx y1 x1
          \<and> (ny < 2 ^ 31 \<and> nx < 2 ^ 31 \<and> ny * nx < 2 ^ 31 \<longrightarrow>
               (\<exists>snapshots. main_1d nprocs ny nx 2 save_interval (blinker_grid ny nx y1 x1)
                              = Inr (blinker_grid ny nx y1 x1, snapshots)))
          \<and> map_option fst (main_2d (Py, Px) ny nx 2 save_interval (blinker_grid ny nx y1 x1))
            = Some (blinker_grid ny nx y1 x1)"
  proof
    assume "4 \<le> ny \<and> 4 \<le> nx \<and> y1 < ny \<and> x1 + 2 < nx"
    then have big: "4 \<le> ny" "4 \<le> nx" "y1 < ny" "x1 + 2 < nx"
      by simp_all
    have two: "(reference_step ny nx ^^ 2) (blinker_grid ny nx y1 x1) = blinker_grid ny nx y1 x1"
      by (rule blinker_has_period_two [OF big])
    have l1: "ny < 2 ^ 31 \<and> nx < 2 ^ 31 \<and> ny * nx < 2 ^ 31 \<longrightarrow>
               (\<exists>snapshots. main_1d nprocs ny nx 2 save_interval (blinker_grid ny nx y1 x1)
                              = Inr (blinker_grid ny nx y1 x1, snapshots))"
    proof
      assume "ny < 2 ^ 31 \<and> nx < 2 ^ 31 \<and> ny * nx < 2 ^ 31"
      then have f: "ny < 2 ^ 31" "ny * nx < 2 ^ 31"
        by simp_all
      show "\<exists>snapshots. main_1d nprocs ny nx 2 save_interval (blinker_grid ny nx y1 x1)
                              = Inr (blinker_grid ny nx y1 x1, snapshots)"
        using main_1d_final [OF sl assms(5,6) f, of 2 save_interval] by (simp only: two)
    qed
    have l2: "map_option fst (main_2d (Py, Px) ny nx 2 save_interval (blinker_grid ny nx y1 x1))
              = Some (blinker_grid ny nx y1 x1)"
      by (simp only: main_2d_final [OF sl assms(7,8,9,10)] two)
    show "(reference_step ny nx ^^ 2) (blinker_grid ny nx y1 x1) = blinker_grid ny nx y1 x1
          \<and> (ny < 2 ^ 31 \<and> nx < 2 ^ 31 \<and> ny * nx < 2 ^ 31 \<longrightarrow>
               (\<exists>snapshots. main_1d nprocs ny nx 2 save_interval (blinker_grid ny nx y1 x1)
                              = Inr (blinker_grid ny nx y1 x1, snapshots)))
          \<and> map_option fst (main_2d (Py, Px) ny nx 2 save_interval (blinker_grid ny nx y1 x1))
            = Some (blinker_grid ny nx y1 x1)"
      by (intro conjI two l1 l2)
  qed
  show ?thesis
    by (intro conjI still b1 b2 osc)
qed

theorem still_life_and_oscillator_witness:
  "(3::nat) \<le> 4 \<and> (1::nat) + 1 < 4 \<and> (0::nat) < 2 \<and> (2::nat) \<le> 4 \<and> (0::nat) + 2 < 4
   \<and> (4::nat) < 2 ^ 31 \<and> (4::nat) < 2 ^ 31 \<and> (4::nat) * 4 < 2 ^ 31
   \<and> block_grid 4 4 1 1 = [[0, 0, 0, 0], [0, 1, 1, 0], [0, 1, 1, 0], [0, 0, 0, 0]]
   \<and> reference_step 4 4 [[0, 0, 0, 0], [0, 1, 1, 0], [0, 1, 1, 0], [0, 0, 0, 0]]
       = [[0, 0, 0, 0], [0, 1, 1, 0], [0, 1, 1, 0], [0, 0, 0, 0]]
   \<and> (\<exists>snapshots.
         main_1d 2 4 4 1 0 [[0, 0, 0, 0], [0, 1, 1, 0], [0, 1, 1, 0], [0, 0, 0, 0]]
         = Inr ([[0, 0, 0, 0], [0, 1, 1, 0], [0, 1, 1, 0], [0, 0, 0, 0]], snapshots))
   \<and> map_option fst (main_2d (2, 2) 4 4 1 0 [[0, 0, 0, 0], [0, 1, 1, 0], [0, 1, 1, 0], [0, 0, 0, 0]])
       = Some [[0, 0, 0, 0], [0, 1, 1, 0], [0, 1, 1, 0], [0, 0, 0, 0]]
   \<and> blinker_grid 4 4 3 0 = [[0, 0, 0, 0], [0, 0, 0, 0], [0, 0, 0, 0], [1, 1, 1, 0]]
   \<and> (reference_step 4 4 ^^ 2) [[0, 0, 0, 0], [0, 0, 0, 0], [0, 0, 0, 0], [1, 1, 1, 0]]
       = [[0, 0, 0, 0], [0, 0, 0, 0], [0, 0, 0, 0], [1, 1, 1, 0]]
   \<and> (\<exists>snapshots.
         main_1d 2 4 4 2 0 [[0, 0, 0, 0], [0, 0, 0, 0], [0, 0, 0, 0], [1, 1, 1, 0]]
         = Inr ([[0, 0, 0, 0], [0, 0, 0, 0], [0, 0, 0, 0], [1, 1, 1, 0]], snapshots))
   \<and> map_option fst (main_2d (2, 2) 4 4 2 0 [[0, 0, 0, 0], [0, 0, 0, 0], [0, 0, 0, 0], [1, 1, 1, 0]])
       = Some [[0, 0, 0, 0], [0, 0, 0, 0], [0, 0, 0, 0], [1, 1, 1, 0]]"
proof -
  have h: "(3::nat) \<le> 4" "(1::nat) + 1 < 4" "(0::nat) < 2" "(2::nat) \<le> 4"
    by simp_all
  have g: "(4::nat) \<le> 4 \<and> (4::nat) \<le> 4 \<and> (3::nat) < 4 \<and> (0::nat) + 2 < 4"
    by simp
  have fit: "(4::nat) < 2 ^ 31 \<and> (4::nat) < 2 ^ 31 \<and> (4::nat) * 4 < 2 ^ 31"
    by simp
  have b: "block_grid 4 4 1 1 = [[0, 0, 0, 0], [0, 1, 1, 0], [0, 1, 1, 0], [0, 0, 0, 0]]"
    by code_simp
  have l: "blinker_grid 4 4 3 0 = [[0, 0, 0, 0], [0, 0, 0, 0], [0, 0, 0, 0], [1, 1, 1, 0]]"
    by code_simp
  from still_life_and_oscillator [OF h(1) h(1) h(2) h(2) h(3) h(4) h(3) h(3) h(4) h(4),
      of 0 3 0] g fit
  show ?thesis
    unfolding b l by simp
qed

theorem small_torus_breaks_patterns:
  "block_grid 2 4 0 0 = [[1, 1, 0, 0], [1, 1, 0, 0]]
   \<and> reference_step 2 4 [[1, 1, 0, 0], [1, 1, 0, 0]] = [[0, 0, 1, 1], [0, 0, 1, 1]]
   \<and> main_1d 1 2 4 1 0 [[1, 1, 0, 0], [1, 1, 0, 0]]
       = Inr ([[0, 0, 1, 1], [0, 0, 1, 1]], [(1, [[0, 0, 1, 1], [0, 0, 1, 1]])])
   \<and> blinker_grid 3 5 1 1 = [[0, 0, 0, 0, 0], [0, 1, 1, 1, 0], [0, 0, 0, 0, 0]]
   \<and> reference_step 3 5 (reference_step 3 5 [[0, 0, 0, 0, 0], [0, 1, 1, 1, 0], [0, 0, 0, 0, 0]])
       = [[0, 1, 1, 1, 0], [0, 1, 1, 1, 0], [0, 1, 1, 1, 0]]
   \<and> main_1d 1 3 5 2 0 [[0, 0, 0, 0, 0], [0, 1, 1, 1, 0], [0, 0, 0, 0, 0]]
       = Inr ([[0, 1, 1, 1, 0], [0, 1, 1, 1, 0], [0, 1, 1, 1, 0]],
               [(2, [[0, 1, 1, 1, 0], [0, 1, 1, 1, 0], [0, 1, 1, 1, 0]])])"
  by code_simp

end
